theory Spec2Isabelle
  imports Complex_Main "HOL-Library.Word"
begin

unbundle bit_operations_syntax

section \<open>Numbers and byte buffers\<close>

text \<open>
  The program is TypeScript. A \<open>Uint8ClampedArray\<close> or \<open>Uint8Array\<close> is a list of
  8-bit words. A JavaScript number is an IEEE 754 double: a finite one is modelled as the
  rational it denotes, and the result of a division is rounded to the nearest double, ties
  to even, as the language prescribes. Counters, sizes and indices are integers far below
  \<open>2^53\<close>, which doubles hold exactly. A decimal literal such as \<open>0.95\<close> denotes the double
  nearest to it.
\<close>

type_synonym bytes = "8 word list"

datatype num = NaN | Num rat | PosInf | NegInf

text \<open>
  The binary exponent of a positive number: \<open>expUp\<close> counts the halvings that bring a
  number from \<open>1\<close> upwards below \<open>2\<close>, \<open>expDown\<close> the doublings that bring a number below
  \<open>1\<close> up to \<open>1\<close>.
\<close>

function expUp :: "rat \<Rightarrow> nat" where
  "expUp x = (if 2 \<le> x then Suc (expUp (x / 2)) else 0)"
  by pat_completeness auto
termination
proof (relation "measure (\<lambda>x. nat \<lfloor>x\<rfloor>)")
  show "wf (measure (\<lambda>x::rat. nat \<lfloor>x\<rfloor>))" by simp
next
  fix x :: rat
  assume x: "2 \<le> x"
  have "x / 2 \<le> x - 1" using x by simp
  then have "\<lfloor>x / 2\<rfloor> \<le> \<lfloor>x - 1\<rfloor>" by (rule floor_mono)
  moreover have "2 \<le> \<lfloor>x\<rfloor>" using x by (simp add: le_floor_iff)
  ultimately show "(x / 2, x) \<in> measure (\<lambda>x. nat \<lfloor>x\<rfloor>)" by simp
qed

function expDown :: "rat \<Rightarrow> nat" where
  "expDown x = (if 0 < x \<and> x < 1 then Suc (expDown (x * 2)) else 0)"
  by pat_completeness auto
termination
proof (relation "measure (\<lambda>x. nat \<lfloor>1 / x\<rfloor>)")
  show "wf (measure (\<lambda>x::rat. nat \<lfloor>1 / x\<rfloor>))" by simp
next
  fix x :: rat
  assume x: "0 < x \<and> x < 1"
  define y where "y = 1 / x"
  have y: "1 < y" using x by (simp add: y_def)
  have n: "1 \<le> \<lfloor>y\<rfloor>" using y by (simp add: le_floor_iff)
  have "y < of_int \<lfloor>y\<rfloor> + 1" by linarith
  then have "y / 2 < of_int \<lfloor>y\<rfloor>" using n by linarith
  then have lt: "\<lfloor>y / 2\<rfloor> < \<lfloor>y\<rfloor>" by (simp only: floor_less_iff)
  have e: "1 / (x * 2) = y / 2" unfolding y_def by (simp only: divide_divide_eq_left)
  have "nat \<lfloor>y / 2\<rfloor> < nat \<lfloor>y\<rfloor>" using lt n by linarith
  then show "(x * 2, x) \<in> measure (\<lambda>x. nat \<lfloor>1 / x\<rfloor>)"
    unfolding in_measure e y_def .
qed

declare expUp.simps [simp del] expDown.simps [simp del]

definition exponent :: "rat \<Rightarrow> int" where
  "exponent x = (if 1 \<le> x then int (expUp x) else - int (expDown x))"

text \<open>Rounding to the nearest integer, a tie going to the even one.\<close>

definition roundTiesToEven :: "rat \<Rightarrow> int" where
  "roundTiesToEven y =
     (let n = \<lfloor>y\<rfloor>; r = y - of_int n
      in if r < 1 / 2 then n else if 1 / 2 < r then n + 1 else if even n then n else n + 1)"

text \<open>
  The double nearest to a rational: a significand of 53 bits, and the fixed spacing
  \<open>2^-1074\<close> of the subnormal numbers below \<open>2^-1022\<close>. Quotients of counts stay far from the
  overflow threshold, which is not modelled.
\<close>

definition roundDouble :: "rat \<Rightarrow> rat" where
  "roundDouble x =
     (if x = 0 then 0
      else (let k = max (exponent \<bar>x\<bar>) (- 1022) - 52
            in of_int (roundTiesToEven (x / 2 powi k)) * 2 powi k))"

text \<open>\<open>a / b\<close> on two integer-valued numbers.\<close>

definition js_div :: "int \<Rightarrow> int \<Rightarrow> num" where
  "js_div a b =
     (if b = 0 then (if a = 0 then NaN else if 0 < a then PosInf else NegInf)
      else Num (roundDouble (of_int a / of_int b)))"

text \<open>
  \<open>Math.floor(a / b)\<close> on two integer-valued numbers. With \<open>b = 0\<close> the quotient is NaN or
  an infinity and so is its floor; the callers do not read the result in that case, and
  the value here stands for it.
\<close>

definition floorDiv :: "int \<Rightarrow> int \<Rightarrow> int" where
  "floorDiv a b = \<lfloor>roundDouble (of_int a / of_int b)\<rfloor>"

text \<open>\<open>x < t\<close> and \<open>x >= t\<close> against a finite number; every comparison with NaN is false.\<close>

fun num_lt :: "num \<Rightarrow> rat \<Rightarrow> bool" where
  "num_lt NaN t = False"
| "num_lt (Num q) t = (q < t)"
| "num_lt PosInf t = False"
| "num_lt NegInf t = True"

fun num_ge :: "num \<Rightarrow> rat \<Rightarrow> bool" where
  "num_ge NaN t = False"
| "num_ge (Num q) t = (t \<le> q)"
| "num_ge PosInf t = True"
| "num_ge NegInf t = False"

text \<open>
  Reading a typed array: an index outside the array yields \<open>undefined\<close> (here \<open>None\<close>),
  and arithmetic on it yields NaN, which fails every comparison.
\<close>

definition readByte :: "bytes \<Rightarrow> int \<Rightarrow> int option" where
  "readByte d i = (if 0 \<le> i \<and> i < int (length d) then Some (uint (d ! nat i)) else None)"

text \<open>\<open>Math.abs(a - b)\<close>; \<open>None\<close> stands for NaN.\<close>

definition absDiff :: "int option \<Rightarrow> int option \<Rightarrow> int option" where
  "absDiff a b = (case (a, b) of (Some x, Some y) \<Rightarrow> Some \<bar>x - y\<bar> | _ \<Rightarrow> None)"

definition le_num :: "int option \<Rightarrow> int \<Rightarrow> bool" where
  "le_num d t = (case d of None \<Rightarrow> False | Some v \<Rightarrow> v \<le> t)"

definition gt_num :: "int option \<Rightarrow> int \<Rightarrow> bool" where
  "gt_num d t = (case d of None \<Rightarrow> False | Some v \<Rightarrow> t < v)"

section \<open>Screen capture: \<open>useScreenCapture\<close>\<close>

record ScreenCaptureConfig =
  minIntervalMs :: int
  maxIntervalMs :: int
  idleTimeoutMs :: int
  diffThreshold :: rat
  jpegQuality :: "rat option"  \<comment> \<open>\<open>None\<close> is \<open>'auto'\<close>\<close>
  diffSampleSize :: int

definition DEFAULT_SCREEN_CAPTURE_CONFIG :: ScreenCaptureConfig where
  "DEFAULT_SCREEN_CAPTURE_CONFIG =
     \<lparr> minIntervalMs = 500, maxIntervalMs = 2000, idleTimeoutMs = 3000,
       diffThreshold = roundDouble (95 / 100), jpegQuality = Some (roundDouble (75 / 100)),
       diffSampleSize = 100 \<rparr>"

subsection \<open>\<open>compareFrames\<close>\<close>

definition tolerance :: int where
  "tolerance = 10"

text \<open>The \<open>for\<close> loop of \<open>compareFrames\<close>, from counter \<open>i\<close> with \<open>matchCount\<close> so far.\<close>

function compareLoop :: "bytes \<Rightarrow> bytes \<Rightarrow> int \<Rightarrow> int \<Rightarrow> int \<Rightarrow> int \<Rightarrow> int" where
  "compareLoop currentData previousData step sampleSize i matchCount =
     (if i < sampleSize then
        (let pixelIndex = (i * step) * 4;
             rDiff = absDiff (readByte currentData pixelIndex) (readByte previousData pixelIndex);
             gDiff = absDiff (readByte currentData (pixelIndex + 1)) (readByte previousData (pixelIndex + 1));
             bDiff = absDiff (readByte currentData (pixelIndex + 2)) (readByte previousData (pixelIndex + 2))
         in compareLoop currentData previousData step sampleSize (i + 1)
              (if le_num rDiff tolerance \<and> le_num gDiff tolerance \<and> le_num bDiff tolerance
               then matchCount + 1 else matchCount))
      else matchCount)"
  by pat_completeness auto
termination
  by (relation "measure (\<lambda>(c, p, st, n, i, m). nat (n - i))") auto

declare compareLoop.simps [simp del]

text \<open>
  \<open>step\<close> is read only inside the loop body, which runs only when \<open>0 < sampleSize\<close>.
\<close>

definition compareFrames :: "int \<Rightarrow> bytes \<Rightarrow> bytes \<Rightarrow> nat \<Rightarrow> nat \<Rightarrow> num" where
  "compareFrames cfgDiffSampleSize currentData previousData width height =
     (if length currentData \<noteq> length previousData then Num 0
      else
        (let sampleSize = min cfgDiffSampleSize (int (width * height));
             step = floorDiv (int (width * height)) sampleSize;
             matchCount = compareLoop currentData previousData step sampleSize 0 0
         in js_div matchCount sampleSize))"

subsection \<open>\<open>getAdaptiveQuality\<close>\<close>

text \<open>The edge-sampling loop: \<open>for (let i = 1; i < sampleSize - 1; i++)\<close>.\<close>

function edgeLoop :: "bytes \<Rightarrow> int \<Rightarrow> int \<Rightarrow> int \<Rightarrow> int \<Rightarrow> int" where
  "edgeLoop imageData step sampleSize i edgeCount =
     (if i < sampleSize - 1 then
        (let pixelIndex = (i * step) * 4;
             nextPixelIndex = ((i * step) + 1) * 4;
             diff = absDiff (readByte imageData pixelIndex) (readByte imageData nextPixelIndex)
         in edgeLoop imageData step sampleSize (i + 1)
              (if gt_num diff 30 then edgeCount + 1 else edgeCount))
      else edgeCount)"
  by pat_completeness auto
termination
  by (relation "measure (\<lambda>(d, st, n, i, e). nat (n - 1 - i))") auto

declare edgeLoop.simps [simp del]

definition getAdaptiveQuality :: "ScreenCaptureConfig \<Rightarrow> bytes \<Rightarrow> nat \<Rightarrow> nat \<Rightarrow> rat" where
  "getAdaptiveQuality config imageData width height =
     (case jpegQuality config of
        Some q \<Rightarrow> q
      | None \<Rightarrow>
          (let sampleSize = 50;
               step = floorDiv (int (width * height)) sampleSize;
               edgeCount = edgeLoop imageData step sampleSize 1 0;
               edgeRatio = roundDouble (of_int edgeCount / of_int sampleSize)
           in if edgeRatio > roundDouble (3 / 10) then roundDouble (85 / 100)
              else if edgeRatio > roundDouble (15 / 100) then roundDouble (75 / 100)
              else roundDouble (65 / 100)))"

subsection \<open>\<open>captureFrame\<close>\<close>

record CapturedFrame =
  data :: "string option"   \<comment> \<open>\<open>dataUrl.split(',')[1]\<close>, \<open>undefined\<close> when there is no comma\<close>
  width :: nat
  height :: nat
  timestamp :: int
  isKeyFrame :: bool
  similarity :: num

text \<open>The video element: its reported size and the pixels \<open>getImageData\<close> reads after drawing it.\<close>

record VideoElement =
  videoWidth :: nat
  videoHeight :: nat
  imagePixels :: bytes

text \<open>What one call reads from the browser.\<close>

record CaptureIO =
  videoCurrent :: "VideoElement option"    \<comment> \<open>\<open>videoRef.current\<close>\<close>
  contextAvailable :: bool                  \<comment> \<open>whether \<open>getContext('2d')\<close> gave a context\<close>
  toDataURL :: "bytes \<Rightarrow> rat \<Rightarrow> string"     \<comment> \<open>the canvas's JPEG encoder at a quality\<close>
  dateNow :: int                            \<comment> \<open>\<open>Date.now()\<close>\<close>

text \<open>The refs and React state of the hook, and the frames handed to \<open>onFrame\<close> so far.\<close>

record CaptureState =
  canvasSize :: "(nat \<times> nat) option"      \<comment> \<open>\<open>canvasRef.current\<close>: absent until first use\<close>
  previousFrameData :: "bytes option"
  lastActivity :: int
  frameCountRef :: nat
  skippedCountRef :: nat
  currentIntervalMs :: int
  isIdle :: bool
  frameCount :: nat
  skippedCount :: nat
  delivered :: "CapturedFrame list"

definition getCanvas :: "CaptureState \<Rightarrow> CaptureState" where
  "getCanvas s = (case canvasSize s of None \<Rightarrow> s\<lparr>canvasSize := Some (300, 150)\<rparr> | Some c \<Rightarrow> s)"

text \<open>\<open>str.split(',')\<close> and the element at index 1.\<close>

fun splitComma :: "string \<Rightarrow> string list" where
  "splitComma [] = [[]]"
| "splitComma (c # cs) =
     (if c = CHR '','' then [] # splitComma cs
      else (case splitComma cs of [] \<Rightarrow> [[c]] | p # ps \<Rightarrow> (c # p) # ps))"

definition secondPart :: "string \<Rightarrow> string option" where
  "secondPart dataUrl =
     (case splitComma dataUrl of a # b # rest \<Rightarrow> Some b | _ \<Rightarrow> None)"

definition captureFrame ::
  "ScreenCaptureConfig \<Rightarrow> CaptureIO \<Rightarrow> CaptureState \<Rightarrow> CapturedFrame option \<times> CaptureState" where
  "captureFrame config io s =
     (case videoCurrent io of
        None \<Rightarrow> (None, s)
      | Some video \<Rightarrow>
          if videoWidth video = 0 \<or> videoHeight video = 0 then (None, s)
          else
            (let s1 = getCanvas s in
             if \<not> contextAvailable io then (None, s1)
             else
               (let w = videoWidth video;
                    h = videoHeight video;
                    s2 = (if canvasSize s1 \<noteq> Some (w, h) then s1\<lparr>canvasSize := Some (w, h)\<rparr> else s1);
                    currentData = imagePixels video;
                    (sim, keyFrame) =
                      (case previousFrameData s2 of
                         None \<Rightarrow> (Num 0, True)
                       | Some previous \<Rightarrow>
                           (let sim' = compareFrames (diffSampleSize config) currentData previous w h
                            in (sim', num_lt sim' (diffThreshold config))))
                in if previousFrameData s2 \<noteq> None \<and> \<not> keyFrame then
                     (None, s2\<lparr>skippedCountRef := skippedCountRef s2 + 1,
                                skippedCount := skippedCountRef s2 + 1\<rparr>)
                   else
                     (let s3 = s2\<lparr>previousFrameData := Some currentData\<rparr>;
                          quality = getAdaptiveQuality config currentData w h;
                          base64Data = secondPart (toDataURL io currentData quality);
                          s4 = s3\<lparr>frameCountRef := frameCountRef s3 + 1,
                                  frameCount := frameCountRef s3 + 1\<rparr>
                      in (Some \<lparr>data = base64Data, width = w, height = h,
                                timestamp = dateNow io, isKeyFrame = keyFrame,
                                similarity = sim\<rparr>, s4)))))"

text \<open>
  One tick of the capture loop (\<open>runCaptureLoop\<close>): the idle decision, then the capture,
  then the delivery of a produced frame to \<open>onFrame\<close> when a callback was given.
\<close>

definition runCaptureLoop ::
  "ScreenCaptureConfig \<Rightarrow> bool \<Rightarrow> CaptureIO \<Rightarrow> CaptureState \<Rightarrow> CaptureState" where
  "runCaptureLoop config hasOnFrame io s =
     (let timeSinceActivity = dateNow io - lastActivity s;
          shouldBeIdle = (timeSinceActivity > idleTimeoutMs config);
          s1 = (if shouldBeIdle \<noteq> isIdle s
                then s\<lparr>isIdle := shouldBeIdle,
                       currentIntervalMs :=
                         (if shouldBeIdle then maxIntervalMs config else minIntervalMs config)\<rparr>
                else s)
      in case captureFrame config io s1 of
           (Some frame, s2) \<Rightarrow>
             (if hasOnFrame then s2\<lparr>delivered := delivered s2 @ [frame]\<rparr> else s2)
         | (None, s2) \<Rightarrow> s2)"

text \<open>The reset effect that runs when the hook is disabled.\<close>

definition resetOnDisable :: "CaptureState \<Rightarrow> CaptureState" where
  "resetOnDisable s =
     s\<lparr>previousFrameData := None, frameCountRef := 0, skippedCountRef := 0,
       frameCount := 0, skippedCount := 0\<rparr>"

section \<open>Grounding tools: \<open>contextService\<close> and the live session configuration\<close>

datatype DocStatus = uploading | indexing | ready | failed

record UploadedDocument =
  docUri :: string
  docName :: string
  docMimeType :: string
  docSize :: nat
  docStatus :: "DocStatus option"

record FileSearchStore =
  storeName :: string          \<comment> \<open>\<open>name\<close>, the resource name\<close>
  storeDisplayName :: string

datatype Role = user | model | system

record Message =
  msgId :: string
  msgRole :: Role
  msgText :: string
  msgTimestamp :: int

datatype AttachmentType = image | video

record Attachment =
  attType :: AttachmentType
  attData :: string
  attMimeType :: "string option"

datatype ContextSource = snippet | sketch | chat | live

record ContextInput =
  query :: string
  source :: ContextSource
  screenImage :: "string option"
  sketchImage :: "string option"
  attachments :: "Attachment list option"
  history :: "Message list option"
  ragStore :: "FileSearchStore option"
  documents :: "UploadedDocument list option"
  metadataFilter :: "string option"

datatype ContentPart = TextPart string | InlineData string string  \<comment> \<open>mime type, data\<close>

record FileSearchTool =
  fileSearchStoreNames :: "string list"
  toolMetadataFilter :: "string option"

text \<open>A tool object: each of its three keys is present or absent.\<close>

record ModelTool =
  googleSearch :: "unit option"
  fileSearch :: "FileSearchTool option"
  codeExecution :: "unit option"

text \<open>
  The system instruction is a concatenation of fixed blocks of prose; the model keeps the
  sequence of blocks and not their wording.
\<close>

datatype InstructionBlock =
    BASE_INSTRUCTION
  | SOURCE_INSTRUCTIONS ContextSource
  | KNOWLEDGE_BASE_ACTIVE nat      \<comment> \<open>with the number of ready documents\<close>
  | WEB_SEARCH_ACTIVE

record RequestMetadata =
  hasScreenContext :: bool
  hasSketchContext :: bool
  hasRagContext :: bool
  historyLength :: nat
  metaSource :: ContextSource

record ContextualRequest =
  parts :: "ContentPart list"
  tools :: "ModelTool list"
  systemInstruction :: "InstructionBlock list"
  metadata :: RequestMetadata

text \<open>Truthiness of an optional string: present and not empty.\<close>

definition truthyStr :: "string option \<Rightarrow> bool" where
  "truthyStr x = (case x of None \<Rightarrow> False | Some t \<Rightarrow> t \<noteq> [])"

text \<open>\<open>cleanBase64Data\<close>: what follows the first comma, or the whole string.\<close>

fun cleanBase64Data :: "string \<Rightarrow> string" where
  "cleanBase64Data d = (if CHR '','' \<in> set d then tl (dropWhile (\<lambda>c. c \<noteq> CHR '','') d) else d)"

definition attachmentParts :: "Attachment list \<Rightarrow> ContentPart list" where
  "attachmentParts as =
     concat (map (\<lambda>a. if attType a = image
                        then [InlineData (if truthyStr (attMimeType a) then the (attMimeType a)
                                          else ''image/jpeg'')
                                         (cleanBase64Data (attData a))]
                        else []) as)"

definition newline :: char where
  "newline = CHR 0x0A"

definition historyText :: "Message list option \<Rightarrow> string" where
  "historyText h =
     (case h of
        None \<Rightarrow> []
      | Some ms \<Rightarrow>
          if length ms = 0 then []
          else
            (let recentHistory = drop (length ms - 6) ms
             in ''Previous conversation:'' @ [newline]
                @ concat (map (\<lambda>m. (if msgRole m = user then ''User'' else ''Assistant'')
                                    @ '': '' @ msgText m @ [newline]) recentHistory)
                @ [newline]))"

definition isReady :: "UploadedDocument \<Rightarrow> bool" where
  "isReady d = (docStatus d = Some ready)"

definition buildContextualRequest :: "ContextInput \<Rightarrow> ContextualRequest" where
  "buildContextualRequest input =
     (let parts1 = (if truthyStr (screenImage input)
                    then [InlineData ''image/jpeg'' (cleanBase64Data (the (screenImage input)))]
                    else []);
          parts2 = parts1 @ (if truthyStr (sketchImage input)
                    then [InlineData ''image/png'' (cleanBase64Data (the (sketchImage input)))]
                    else []);
          parts3 = parts2 @ (case attachments input of
                               None \<Rightarrow> []
                             | Some as \<Rightarrow> attachmentParts as);
          historyContext = historyText (history input);
          parts4 = parts3 @ [TextPart (historyContext @ ''User Request: '' @ query input)];
          hasReadyDocs = (case documents input of None \<Rightarrow> False | Some ds \<Rightarrow> list_ex isReady ds);
          hasRag = (ragStore input \<noteq> None \<and> hasReadyDocs);
          tools1 =
            (case ragStore input of
               Some store \<Rightarrow>
                 if hasRag then
                   [\<lparr>googleSearch = None,
                     fileSearch = Some \<lparr>fileSearchStoreNames = [storeName store],
                                        toolMetadataFilter =
                                          (if truthyStr (metadataFilter input)
                                           then metadataFilter input else None)\<rparr>,
                     codeExecution = None\<rparr>]
                 else [\<lparr>googleSearch = Some (), fileSearch = None, codeExecution = None\<rparr>]
             | None \<Rightarrow> [\<lparr>googleSearch = Some (), fileSearch = None, codeExecution = None\<rparr>]);
          instruction =
            [BASE_INSTRUCTION, SOURCE_INSTRUCTIONS (source input)]
            @ (if hasRag
               then [KNOWLEDGE_BASE_ACTIVE
                       (case documents input of None \<Rightarrow> 0 | Some ds \<Rightarrow> length (filter isReady ds))]
               else [WEB_SEARCH_ACTIVE])
      in \<lparr>parts = parts4, tools = tools1, systemInstruction = instruction,
          metadata = \<lparr>hasScreenContext = truthyStr (screenImage input),
                       hasSketchContext = truthyStr (sketchImage input),
                       hasRagContext = hasRag,
                       historyLength = (case history input of None \<Rightarrow> 0 | Some ms \<Rightarrow> length ms),
                       metaSource = source input\<rparr>\<rparr>)"

definition isRagAvailable :: "FileSearchStore option \<Rightarrow> UploadedDocument list option \<Rightarrow> bool" where
  "isRagAvailable store docs =
     (store \<noteq> None \<and> (case docs of None \<Rightarrow> False | Some ds \<Rightarrow> list_ex isReady ds))"

subsection \<open>The configuration built by \<open>LiveAPIProvider\<close>\<close>

datatype Modality = audio | image_modality | text_modality

datatype VoiceName = Puck | Charon | Kore | Fenrir | Aoede

record LiveTool =
  liveGoogleSearch :: "unit option"
  liveCodeExecution :: "unit option"
  liveFileSearch :: "string list option"     \<comment> \<open>\<open>fileSearchStoreNames\<close>\<close>

record LiveConfig =
  liveModel :: string
  responseModalities :: "Modality option"
  voiceName :: "VoiceName option"
  liveTools :: "LiveTool list"

definition buildLiveConfig :: "FileSearchStore option \<Rightarrow> UploadedDocument list \<Rightarrow> LiveConfig" where
  "buildLiveConfig activeStore docs =
     (let hasRagDocs = (activeStore \<noteq> None \<and> list_ex isReady docs);
          toolList =
            (case activeStore of
               Some store \<Rightarrow>
                 if hasRagDocs
                 then [\<lparr>liveGoogleSearch = None, liveCodeExecution = None,
                        liveFileSearch = Some [storeName store]\<rparr>]
                 else [\<lparr>liveGoogleSearch = Some (), liveCodeExecution = None, liveFileSearch = None\<rparr>]
             | None \<Rightarrow> [\<lparr>liveGoogleSearch = Some (), liveCodeExecution = None, liveFileSearch = None\<rparr>])
      in \<lparr>liveModel = ''models/gemini-2.5-flash-native-audio-preview-09-2025'',
          responseModalities = Some audio,
          voiceName = Some Aoede,
          liveTools = toolList\<rparr>)"

section \<open>PCM16 conversion\<close>

text \<open>
  Audio samples are float32 values. Every float32 is a dyadic rational, and on such inputs
  each arithmetic step of the two conversions is exact in JavaScript's doubles: the product
  of a 24-bit significand with 32768 or 32767 fits a double's 53 bits, and a 16-bit integer
  divided by 32768 is a float32. So samples are modelled as rationals, computed exactly.
  NaN and infinite samples are outside the model.
\<close>

datatype Exn =
    Error string            \<comment> \<open>\<open>new Error(message)\<close>\<close>
  | RangeError              \<comment> \<open>a \<open>DataView\<close> access outside the buffer\<close>
  | NotSupportedError       \<comment> \<open>\<open>createBuffer\<close> with a length of zero frames\<close>
  | NotAllowedError         \<comment> \<open>\<open>getUserMedia\<close> denied\<close>
  | TransportFailure        \<comment> \<open>the SDK's \<open>live.connect\<close> rejected\<close>

text \<open>\<open>ToInt16\<close> of a finite number: truncate towards zero, then wrap to 16 bits.\<close>

definition jsTrunc :: "rat \<Rightarrow> int" where
  "jsTrunc q = (if q < 0 then - \<lfloor>- q\<rfloor> else \<lfloor>q\<rfloor>)"

definition toInt16 :: "rat \<Rightarrow> 16 word" where
  "toInt16 q = word_of_int (jsTrunc q)"

text \<open>\<open>DataView.setInt16(offset, value, true)\<close> and \<open>getInt16(offset, true)\<close>: little-endian.\<close>

definition setInt16 :: "bytes \<Rightarrow> nat \<Rightarrow> 16 word \<Rightarrow> Exn + bytes" where
  "setInt16 buf off w =
     (if off + 2 \<le> length buf
      then Inr (buf[off := ucast w, off + 1 := ucast (drop_bit 8 w)])
      else Inl RangeError)"

definition getInt16 :: "bytes \<Rightarrow> nat \<Rightarrow> Exn + int" where
  "getInt16 buf off =
     (if off + 2 \<le> length buf
      then Inr (sint ((push_bit 8 (ucast (buf ! (off + 1))) OR ucast (buf ! off)) :: 16 word))
      else Inl RangeError)"

text \<open>The loop of \<open>AudioRecorder.floatTo16BitPCM\<close>.\<close>

function floatLoop :: "rat list \<Rightarrow> bytes \<Rightarrow> nat \<Rightarrow> Exn + bytes" where
  "floatLoop input output i =
     (if i < length input then
        (let s = max (- 1) (min 1 (input ! i));
             s' = (if s < 0 then s * 0x8000 else s * 0x7FFF)
         in case setInt16 output (i * 2) (toInt16 s') of
              Inl e \<Rightarrow> Inl e
            | Inr output' \<Rightarrow> floatLoop input output' (i + 1))
      else Inr output)"
  by pat_completeness auto
termination
  by (relation "measure (\<lambda>(input, output, i). length input - i)") auto

declare floatLoop.simps [simp del]

definition floatTo16BitPCM :: "rat list \<Rightarrow> Exn + bytes" where
  "floatTo16BitPCM input = floatLoop input (replicate (length input * 2) 0) 0"

text \<open>
  The conversion loop of \<open>AudioStreamer.addPCM16\<close>: \<open>for (i = 0; i < chunk.length / 2; i++)\<close>
  into a \<open>Float32Array\<close> of \<open>chunk.length / 2\<close> elements (the length is truncated; a write
  past the end of a typed array is ignored, as \<open>list_update\<close> is).
\<close>

function pcmLoop :: "bytes \<Rightarrow> rat list \<Rightarrow> nat \<Rightarrow> Exn + rat list" where
  "pcmLoop chunk float32Array i =
     (if 2 * i < length chunk then
        (case getInt16 chunk (i * 2) of
           Inl e \<Rightarrow> Inl e
         | Inr int16 \<Rightarrow> pcmLoop chunk (float32Array[i := of_int int16 / 32768]) (i + 1))
      else Inr float32Array)"
  by pat_completeness auto
termination
  by (relation "measure (\<lambda>(chunk, out, i). length chunk - 2 * i)") auto

declare pcmLoop.simps [simp del]

definition pcm16ToFloat :: "bytes \<Rightarrow> Exn + rat list" where
  "pcm16ToFloat chunk = pcmLoop chunk (replicate (length chunk div 2) 0) 0"

section \<open>Microphone capture: \<open>AudioRecorder\<close>\<close>

text \<open>
  The browser's media objects are handles. The environment records which microphone
  streams still have running tracks, which audio contexts are open, and which source and
  processor nodes are connected, so that what a call creates or releases can be counted.
  The event-listener map of the class is not modelled.
\<close>

record MediaEnv =
  mediaDevicesAvailable :: bool      \<comment> \<open>\<open>navigator.mediaDevices.getUserMedia\<close> exists\<close>
  micPermission :: bool              \<comment> \<open>whether \<open>getUserMedia\<close> resolves\<close>
  nextHandle :: nat
  liveStreams :: "nat list"
  openContexts :: "nat list"
  connectedSources :: "nat list"
  connectedProcessors :: "nat list"

record AudioRecorder =
  recSampleRate :: nat
  recStream :: "nat option"
  recAudioContext :: "nat option"
  recSource :: "nat option"
  recProcessor :: "nat option"

definition newAudioRecorder :: AudioRecorder where
  "newAudioRecorder =
     \<lparr>recSampleRate = 16000, recStream = None, recAudioContext = None,
      recSource = None, recProcessor = None\<rparr>"

definition secureContextMessage :: string where
  "secureContextMessage =
     ''Microphone access requires a secure context (HTTPS or localhost). ''
     @ ''Please access this app via https:// or http://localhost''"

text \<open>\<open>start()\<close>: the exception it rethrows, if any, with the environment and the recorder after.\<close>

definition AudioRecorder_start ::
  "MediaEnv \<Rightarrow> AudioRecorder \<Rightarrow> Exn option \<times> MediaEnv \<times> AudioRecorder" where
  "AudioRecorder_start env r =
     (if \<not> mediaDevicesAvailable env then (Some (Error secureContextMessage), env, r)
      else if \<not> micPermission env then (Some NotAllowedError, env, r)
      else
        (let stream = nextHandle env;
             audioContext = nextHandle env + 1;
             src = nextHandle env + 2;
             processor = nextHandle env + 3
         in (None,
             env\<lparr>nextHandle := nextHandle env + 4,
                 liveStreams := liveStreams env @ [stream],
                 openContexts := openContexts env @ [audioContext],
                 connectedSources := connectedSources env @ [src],
                 connectedProcessors := connectedProcessors env @ [processor]\<rparr>,
             r\<lparr>recStream := Some stream, recAudioContext := Some audioContext,
               recSource := Some src, recProcessor := Some processor\<rparr>)))"

definition AudioRecorder_stop :: "MediaEnv \<Rightarrow> AudioRecorder \<Rightarrow> MediaEnv \<times> AudioRecorder" where
  "AudioRecorder_stop env r =
     (let env1 = (case (recProcessor r, recSource r) of
                    (Some p, Some sn) \<Rightarrow>
                      env\<lparr>connectedSources := removeAll sn (connectedSources env),
                          connectedProcessors := removeAll p (connectedProcessors env)\<rparr>
                  | _ \<Rightarrow> env);
          env2 = (case recStream r of
                    Some st \<Rightarrow> env1\<lparr>liveStreams := removeAll st (liveStreams env1)\<rparr>
                  | None \<Rightarrow> env1);
          env3 = (case recAudioContext r of
                    Some c \<Rightarrow> env2\<lparr>openContexts := removeAll c (openContexts env2)\<rparr>
                  | None \<Rightarrow> env2)
      in (env3, r\<lparr>recStream := None, recAudioContext := None,
                   recSource := None, recProcessor := None\<rparr>))"

section \<open>Playback: \<open>AudioStreamer\<close>\<close>

text \<open>
  Playback runs against a clock. \<open>setTimeout\<close> callbacks and the \<open>onended\<close> events of
  started sources are pending callbacks ordered by due time (in milliseconds); a source
  started at time \<open>t\<close> with \<open>n\<close> samples ends at \<open>t + n * 1000 / sampleRate\<close>, and its
  \<open>onended\<close> callback runs at that instant. The gain node is not modelled, and neither are
  the fields the class never reads.
\<close>

datatype Callback = ScheduleNextBuffer | ReplaceGainNode

record StartedSource =
  startTime :: rat
  endTime :: rat
  samples :: "rat list"

record Playback =
  currentTime :: rat
  timers :: "(rat \<times> Callback) list"
  started :: "StartedSource list"
  onCompleteCalls :: nat
  uncaught :: "Exn list"

record AudioStreamer =
  audioQueue :: "rat list list"
  isPlaying :: bool
  sampleRate :: nat
  isStreamComplete :: bool
  initialBufferTime :: nat

definition newAudioStreamer :: AudioStreamer where
  "newAudioStreamer =
     \<lparr>audioQueue = [], isPlaying = False, sampleRate = 24000,
      isStreamComplete = False, initialBufferTime = 100\<rparr>"

text \<open>A callback due at \<open>t\<close> runs after those already pending for \<open>t\<close> or earlier.\<close>

fun insertTimer :: "rat \<times> Callback \<Rightarrow> (rat \<times> Callback) list \<Rightarrow> (rat \<times> Callback) list" where
  "insertTimer x [] = [x]"
| "insertTimer x (y # ys) = (if fst x < fst y then x # y # ys else y # insertTimer x ys)"

definition addPCM16 ::
  "bytes \<Rightarrow> Playback \<times> AudioStreamer \<Rightarrow> Exn option \<times> Playback \<times> AudioStreamer" where
  "addPCM16 chunk ps =
     (case ps of (pb, st) \<Rightarrow>
        (case pcm16ToFloat chunk of
           Inl e \<Rightarrow> (Some e, pb, st)
         | Inr float32Array \<Rightarrow>
             (let st1 = st\<lparr>audioQueue := audioQueue st @ [float32Array]\<rparr>
              in if \<not> isPlaying st1
                 then (None,
                       pb\<lparr>timers := insertTimer
                            (currentTime pb + of_nat (initialBufferTime st1), ScheduleNextBuffer)
                            (timers pb)\<rparr>,
                       st1\<lparr>isPlaying := True\<rparr>)
                 else (None, pb, st1))))"

definition scheduleNextBuffer :: "Playback \<times> AudioStreamer \<Rightarrow> Playback \<times> AudioStreamer" where
  "scheduleNextBuffer ps =
     (case ps of (pb, st) \<Rightarrow>
        (case audioQueue st of
           [] \<Rightarrow>
             (if isStreamComplete st
              then (pb\<lparr>onCompleteCalls := onCompleteCalls pb + 1\<rparr>, st\<lparr>isPlaying := False\<rparr>)
              else (pb, st))
         | audioData # rest \<Rightarrow>
             (let st1 = st\<lparr>audioQueue := rest\<rparr>
              in if length audioData = 0
                 then (pb\<lparr>uncaught := uncaught pb @ [NotSupportedError]\<rparr>, st1)
                 else
                   (let ends = currentTime pb
                                 + of_nat (length audioData) * 1000 / of_nat (sampleRate st1)
                    in (pb\<lparr>started := started pb
                                 @ [\<lparr>startTime = currentTime pb, endTime = ends,
                                     samples = audioData\<rparr>],
                            timers := insertTimer (ends, ScheduleNextBuffer) (timers pb)\<rparr>,
                        st1)))))"

definition AudioStreamer_stop :: "Playback \<times> AudioStreamer \<Rightarrow> Playback \<times> AudioStreamer" where
  "AudioStreamer_stop ps =
     (case ps of (pb, st) \<Rightarrow>
        (pb\<lparr>timers := insertTimer (currentTime pb + 200, ReplaceGainNode) (timers pb)\<rparr>,
         st\<lparr>isPlaying := False, isStreamComplete := True, audioQueue := []\<rparr>))"

text \<open>The clock advances to the next pending callback and runs it.\<close>

definition fire :: "Playback \<times> AudioStreamer \<Rightarrow> Playback \<times> AudioStreamer" where
  "fire ps =
     (case ps of (pb, st) \<Rightarrow>
        (case timers pb of
           [] \<Rightarrow> (pb, st)
         | (t, cb) # rest \<Rightarrow>
             (let pb1 = pb\<lparr>currentTime := t, timers := rest\<rparr>
              in case cb of
                   ScheduleNextBuffer \<Rightarrow> scheduleNextBuffer (pb1, st)
                 | ReplaceGainNode \<Rightarrow> (pb1, st))))"

text \<open>The event loop: run pending callbacks in order of due time until none is left.\<close>

function run :: "Playback \<times> AudioStreamer \<Rightarrow> Playback \<times> AudioStreamer" where
  "run ps = (if timers (fst ps) = [] then ps else run (fire ps))"
  by pat_completeness auto
termination
proof (relation "measure (\<lambda>ps. 2 * length (audioQueue (snd ps)) + length (timers (fst ps)))")
  show "wf (measure (\<lambda>ps. 2 * length (audioQueue (snd ps)) + length (timers (fst ps))))"
    by simp
next
  fix ps :: "Playback \<times> AudioStreamer"
  assume pending: "timers (fst ps) \<noteq> []"
  have len: "length (insertTimer x ts) = Suc (length ts)" for x ts
    by (induction ts) auto
  have "2 * length (audioQueue (snd (fire ps))) + length (timers (fst (fire ps)))
          < 2 * length (audioQueue (snd ps)) + length (timers (fst ps))"
    using pending
    by (cases ps)
       (auto simp: fire_def scheduleNextBuffer_def Let_def len
             split: list.splits Callback.splits prod.splits)
  then show "(fire ps, ps)
               \<in> measure (\<lambda>ps. 2 * length (audioQueue (snd ps)) + length (timers (fst ps)))"
    by simp
qed

declare run.simps [simp del]

definition freshPlayback :: "rat \<Rightarrow> Playback" where
  "freshPlayback t =
     \<lparr>currentTime = t, timers = [], started = [], onCompleteCalls = 0, uncaught = []\<rparr>"

text \<open>
  Chunks handed to \<open>addPCM16\<close> one after the other at one instant, as the \<open>content\<close>
  handler's \<open>forEach\<close> does; an exception ends the iteration.
\<close>

fun addChunks ::
  "bytes list \<Rightarrow> Playback \<times> AudioStreamer \<Rightarrow> Exn option \<times> Playback \<times> AudioStreamer" where
  "addChunks [] ps = (None, ps)"
| "addChunks (c # cs) ps =
     (case addPCM16 c ps of
        (Some e, ps') \<Rightarrow> (Some e, ps')
      | (None, ps') \<Rightarrow> addChunks cs ps')"

text \<open>
  Any course of events on a streamer: a chunk arriving (\<open>addPCM16\<close>), the clock advancing
  to the next pending callback, and a call of \<open>stop\<close>. An exception from \<open>addPCM16\<close> leaves
  the streamer as it was.
\<close>

datatype PlaybackEvent = AddChunk bytes | Tick | Stop

fun exec :: "PlaybackEvent list \<Rightarrow> Playback \<times> AudioStreamer \<Rightarrow> Playback \<times> AudioStreamer" where
  "exec [] ps = ps"
| "exec (AddChunk c # es) ps = exec es (snd (addPCM16 c ps))"
| "exec (Tick # es) ps = exec es (fire ps)"
| "exec (Stop # es) ps = exec es (AudioStreamer_stop ps)"

section \<open>The live session: \<open>GenAILiveClient\<close> and \<open>LiveAPIProvider\<close>\<close>

text \<open>
  The client keeps the SDK client it created and the open session, if any. The calls it
  makes to the SDK's \<open>live.connect\<close> are recorded, each with the key and the
  configuration it was given. An \<open>async\<close> method is modelled as run to completion; the
  exception it throws stands for the rejection of its promise.
\<close>

record Transport =
  connectCalls :: "(string \<times> LiveConfig) list"
  connectSucceeds :: bool
  nextSession :: nat

record GenAILiveClient =
  clientConfig :: LiveConfig
  sdkClient :: "string option"       \<comment> \<open>the \<open>GoogleGenAI\<close> instance, by its key\<close>
  session :: "nat option"

definition newGenAILiveClient :: "LiveConfig \<Rightarrow> GenAILiveClient" where
  "newGenAILiveClient config = \<lparr>clientConfig = config, sdkClient = None, session = None\<rparr>"

definition GenAILiveClient_connect ::
  "string \<Rightarrow> Transport \<Rightarrow> GenAILiveClient \<Rightarrow> Exn option \<times> Transport \<times> GenAILiveClient" where
  "GenAILiveClient_connect apiKey tr c =
     (if apiKey = [] then (Some (Error ''API Key required''), tr, c)
      else
        (let c1 = c\<lparr>sdkClient := Some apiKey\<rparr>;
             tr1 = tr\<lparr>connectCalls := connectCalls tr @ [(apiKey, clientConfig c1)]\<rparr>
         in if connectSucceeds tr1
            then (None, tr1\<lparr>nextSession := nextSession tr1 + 1\<rparr>,
                  c1\<lparr>session := Some (nextSession tr1)\<rparr>)
            else (Some TransportFailure, tr1, c1)))"

definition GenAILiveClient_disconnect :: "GenAILiveClient \<Rightarrow> GenAILiveClient" where
  "GenAILiveClient_disconnect c = (case session c of Some x \<Rightarrow> c\<lparr>session := None\<rparr> | None \<Rightarrow> c)"

datatype LiveStatus = disconnected | connecting | connected | error_status

record CompletedTurn =
  turnId :: string
  turnText :: string
  turnTimestamp :: int

text \<open>
  The provider's React state and refs. \<open>completedTurns\<close> lists the values given to
  \<open>setLastCompletedTurn\<close>, \<open>console\<close> the messages given to \<open>console.error\<close>.
\<close>

record LiveAPI =
  status :: LiveStatus
  isRecording :: bool
  error :: "string option"
  streamingText :: string
  isStreaming :: bool
  lastCompletedTurn :: "CompletedTurn option"
  clientRef :: "GenAILiveClient option"
  audioRecorderRef :: "AudioRecorder option"
  audioStreamerRef :: "AudioStreamer option"
  audioContextRef :: "nat option"
  streamingTextRef :: string
  turnIdRef :: nat
  completedTurns :: "CompletedTurn list"
  console :: "string list"

definition initialLiveAPI :: LiveAPI where
  "initialLiveAPI =
     \<lparr>status = disconnected, isRecording = False, error = None, streamingText = [],
      isStreaming = False, lastCompletedTurn = None, clientRef = None,
      audioRecorderRef = None, audioStreamerRef = None, audioContextRef = None,
      streamingTextRef = [], turnIdRef = 0, completedTurns = [], console = []\<rparr>"

text \<open>\<open>getApiKey\<close>: \<open>process.env.API_KEY?.replace(/["']/g, "").trim()\<close>, on ASCII text.\<close>

definition isSpace :: "char \<Rightarrow> bool" where
  "isSpace c = (c \<in> set [CHR 0x20, CHR 0x09, CHR 0x0A, CHR 0x0B, CHR 0x0C, CHR 0x0D])"

definition trim :: "string \<Rightarrow> string" where
  "trim t = rev (dropWhile isSpace (rev (dropWhile isSpace t)))"

definition getApiKey :: "string option \<Rightarrow> string option" where
  "getApiKey envKey =
     map_option (\<lambda>k. trim (filter (\<lambda>c. c \<noteq> CHR 0x22 \<and> c \<noteq> CHR 0x27) k)) envKey"

text \<open>Decimal digits of a number, for the template \<open>`live-turn-${turnIdRef.current}`\<close>.\<close>

function showNat :: "nat \<Rightarrow> string" where
  "showNat n =
     (if n < 10 then [''0123456789'' ! n]
      else showNat (n div 10) @ [''0123456789'' ! (n mod 10)])"
  by pat_completeness auto
termination
  by (relation "measure id") auto

declare showNat.simps [simp del]

definition onTextDelta :: "string \<Rightarrow> LiveAPI \<Rightarrow> LiveAPI" where
  "onTextDelta delta s =
     (let s1 = s\<lparr>isStreaming := True\<rparr>;
          s2 = s1\<lparr>streamingTextRef := streamingTextRef s1 @ delta\<rparr>
      in s2\<lparr>streamingText := streamingTextRef s2\<rparr>)"

definition onTurnComplete :: "int \<Rightarrow> LiveAPI \<Rightarrow> LiveAPI" where
  "onTurnComplete dateNowMs s =
     (let finalText = streamingTextRef s;
          s1 = (if finalText \<noteq> [] then
                  (let s' = s\<lparr>turnIdRef := turnIdRef s + 1\<rparr>;
                       turn = \<lparr>turnId = ''live-turn-'' @ showNat (turnIdRef s'),
                               turnText = finalText, turnTimestamp = dateNowMs\<rparr>
                   in s'\<lparr>lastCompletedTurn := Some turn,
                         completedTurns := completedTurns s' @ [turn]\<rparr>)
                else s)
      in s1\<lparr>streamingTextRef := [], streamingText := [], isStreaming := False\<rparr>)"

text \<open>
  \<open>connect\<close> of the provider. The client's \<open>connect\<close> is not awaited: what it throws is
  lost to the caller, so only the transport and the client are taken from it.
\<close>

definition connect ::
  "string option \<Rightarrow> Transport \<Rightarrow> LiveAPI \<Rightarrow> Transport \<times> LiveAPI" where
  "connect envKey tr s =
     (case getApiKey envKey of
        None \<Rightarrow> (tr, s\<lparr>console := console s @ [''API Key missing or invalid'']\<rparr>)
      | Some key \<Rightarrow>
          if key = [] then (tr, s\<lparr>console := console s @ [''API Key missing or invalid'']\<rparr>)
          else
            (let s1 = s\<lparr>status := connecting\<rparr>
             in case clientRef s1 of
                  None \<Rightarrow> (tr, s1)
                | Some c \<Rightarrow>
                    (case GenAILiveClient_connect key tr c of
                       (e, tr', c') \<Rightarrow> (tr', s1\<lparr>clientRef := Some c'\<rparr>))))"

text \<open>\<open>String.prototype.includes\<close>.\<close>

fun strIncludes :: "string \<Rightarrow> string \<Rightarrow> bool" where
  "strIncludes [] needle = (needle = [])"
| "strIncludes (c # cs) needle =
     (take (length needle) (c # cs) = needle \<or> strIncludes cs needle)"

definition exnMessage :: "Exn \<Rightarrow> string option" where
  "exnMessage e = (case e of Error m \<Rightarrow> Some m | _ \<Rightarrow> None)"

text \<open>
  \<open>startRecording\<close>: the playback context, the streamer and the recorder are created when
  their refs are empty; then the recorder is started.
\<close>

definition startRecording :: "MediaEnv \<Rightarrow> LiveAPI \<Rightarrow> MediaEnv \<times> LiveAPI" where
  "startRecording env s =
     (let (env1, s1) =
            (case audioContextRef s of
               None \<Rightarrow> (env\<lparr>nextHandle := nextHandle env + 1,
                              openContexts := openContexts env @ [nextHandle env]\<rparr>,
                         s\<lparr>audioContextRef := Some (nextHandle env)\<rparr>)
             | Some c \<Rightarrow> (env, s));
          s2 = (case audioStreamerRef s1 of
                  None \<Rightarrow> s1\<lparr>audioStreamerRef := Some newAudioStreamer\<rparr>
                | Some a \<Rightarrow> s1);
          s3 = (case audioRecorderRef s2 of
                  None \<Rightarrow> s2\<lparr>audioRecorderRef := Some newAudioRecorder\<rparr>
                | Some r \<Rightarrow> s2)
      in case audioRecorderRef s3 of
           None \<Rightarrow> (env1, s3)
         | Some r \<Rightarrow>
             (case AudioRecorder_start env1 r of
                (None, env2, r') \<Rightarrow>
                  (env2, s3\<lparr>audioRecorderRef := Some r', isRecording := True, error := None\<rparr>)
              | (Some e, env2, r') \<Rightarrow>
                  (env2,
                   s3\<lparr>audioRecorderRef := Some r',
                      console := console s3 @ [''Failed to start recording''],
                      error := Some (case exnMessage e of
                                       Some m \<Rightarrow> if strIncludes m ''secure context'' then m
                                                 else ''Failed to access microphone. Please check permissions.''
                                     | None \<Rightarrow> ''Failed to access microphone. Please check permissions.'')\<rparr>)))"

section \<open>Notions used to state the properties\<close>

text \<open>
  The spec's pixel match: pixel \<open>k\<close> of two RGBA buffers matches when its red, green and
  blue bytes each differ by at most 10; the alpha byte at \<open>4 * k + 3\<close> is not looked at.
\<close>

definition pixelMatches :: "bytes \<Rightarrow> bytes \<Rightarrow> nat \<Rightarrow> bool" where
  "pixelMatches cur prev k =
     (\<bar>uint (cur ! (4 * k)) - uint (prev ! (4 * k))\<bar> \<le> 10
    \<and> \<bar>uint (cur ! (4 * k + 1)) - uint (prev ! (4 * k + 1))\<bar> \<le> 10
    \<and> \<bar>uint (cur ! (4 * k + 2)) - uint (prev ! (4 * k + 2))\<bar> \<le> 10)"

text \<open>The number of matching pixels among the sampled positions \<open>0, step, 2 * step, \<dots>\<close>.\<close>

definition sampledMatches :: "bytes \<Rightarrow> bytes \<Rightarrow> nat \<Rightarrow> nat \<Rightarrow> nat" where
  "sampledMatches cur prev sampleSize step =
     length (filter (\<lambda>i. pixelMatches cur prev (i * step)) [0..<sampleSize])"

text \<open>
  One sample through the encoder: the clamped and scaled value, its two little-endian
  bytes, and the value the decoder gives back for them.
\<close>

definition scaled :: "rat \<Rightarrow> rat" where
  "scaled x = (let s = max (- 1) (min 1 x) in if s < 0 then s * 0x8000 else s * 0x7FFF)"

definition sampleBytes :: "rat \<Rightarrow> bytes" where
  "sampleBytes x = [ucast (toInt16 (scaled x)), ucast (drop_bit 8 (toInt16 (scaled x)))]"

definition decodedSample :: "rat \<Rightarrow> rat" where
  "decodedSample x = of_int (sint (toInt16 (scaled x))) / 32768"

definition quantized :: "rat \<Rightarrow> rat" where
  "quantized x = of_int (jsTrunc (scaled x)) / 32768"

text \<open>A chunk of PCM16 audio that holds at least one sample and no half sample.\<close>

definition wholeSamples :: "bytes \<Rightarrow> bool" where
  "wholeSamples c = (even (length c) \<and> 2 \<le> length c)"

text \<open>Buffers played back to back from time \<open>t\<close>, and the check that a log of sources is so.\<close>

fun backToBack :: "rat \<Rightarrow> nat \<Rightarrow> rat list list \<Rightarrow> StartedSource list" where
  "backToBack t rate [] = []"
| "backToBack t rate (b # bs) =
     \<lparr>startTime = t, endTime = t + of_nat (length b) * 1000 / of_nat rate, samples = b\<rparr>
     # backToBack (t + of_nat (length b) * 1000 / of_nat rate) rate bs"

fun gapless :: "StartedSource list \<Rightarrow> bool" where
  "gapless (a # b # rest) = (startTime b = endTime a \<and> gapless (b # rest))"
| "gapless _ = True"

text \<open>The chunks that a course of events put into the queue, decoded, in arrival order.\<close>

fun addedChunks :: "PlaybackEvent list \<Rightarrow> rat list list" where
  "addedChunks [] = []"
| "addedChunks (AddChunk c # es) =
     (case pcm16ToFloat c of Inl e \<Rightarrow> addedChunks es | Inr xs \<Rightarrow> xs # addedChunks es)"
| "addedChunks (Tick # es) = addedChunks es"
| "addedChunks (Stop # es) = addedChunks es"

text \<open>A started source plays at least one sample and ends when its samples are played at 24 kHz.\<close>

definition lasting :: "StartedSource \<Rightarrow> bool" where
  "lasting s =
     (samples s \<noteq> [] \<and> endTime s = startTime s + of_nat (length (samples s)) * 1000 / 24000)"

text \<open>
  What holds of a streamer that was never stopped, with \<open>A\<close> the chunks added so far:
  the sources started are back to back and play a prefix of \<open>A\<close>; and either nothing was
  added yet, or no callback is pending any more, or exactly one is, due when the last
  started source ends, with the rest of \<open>A\<close> still queued.
\<close>

definition playedSoFar :: "rat list list \<Rightarrow> Playback \<Rightarrow> AudioStreamer \<Rightarrow> bool" where
  "playedSoFar A pb st =
     (\<not> isStreamComplete st \<and> sampleRate st = 24000 \<and> initialBufferTime st = 100
      \<and> gapless (started pb) \<and> list_all lasting (started pb)
      \<and> map samples (started pb) = take (length (started pb)) A)"

definition notStarted :: "rat list list \<Rightarrow> Playback \<Rightarrow> AudioStreamer \<Rightarrow> bool" where
  "notStarted A pb st =
     (timers pb = [] \<and> \<not> isPlaying st \<and> started pb = [] \<and> audioQueue st = [] \<and> A = [])"

definition stalled :: "Playback \<Rightarrow> AudioStreamer \<Rightarrow> bool" where
  "stalled pb st = (timers pb = [] \<and> isPlaying st)"

definition chained :: "rat list list \<Rightarrow> Playback \<Rightarrow> AudioStreamer \<Rightarrow> rat \<Rightarrow> bool" where
  "chained A pb st t =
     (timers pb = [(t, ScheduleNextBuffer)] \<and> isPlaying st
      \<and> map samples (started pb) @ audioQueue st = A
      \<and> (started pb = [] \<or> t = endTime (last (started pb))))"

definition chainInv :: "rat list list \<Rightarrow> Playback \<times> AudioStreamer \<Rightarrow> bool" where
  "chainInv A ps =
     (playedSoFar A (fst ps) (snd ps)
      \<and> (notStarted A (fst ps) (snd ps) \<or> stalled (fst ps) (snd ps)
          \<or> (\<exists>t. chained A (fst ps) (snd ps) t)))"

text \<open>The spec's condition for File Search: a store exists and some document in it is ready.\<close>

definition storeHasReadyDoc :: "FileSearchStore option \<Rightarrow> UploadedDocument list \<Rightarrow> bool" where
  "storeHasReadyDoc store docs = (store \<noteq> None \<and> (\<exists>d \<in> set docs. docStatus d = Some ready))"

definition docsOf :: "ContextInput \<Rightarrow> UploadedDocument list" where
  "docsOf input = (case documents input of None \<Rightarrow> [] | Some ds \<Rightarrow> ds)"

text \<open>A browser with a microphone, permission granted, and nothing allocated yet.\<close>

definition micEnv :: MediaEnv where
  "micEnv =
     \<lparr>mediaDevicesAvailable = True, micPermission = True, nextHandle = 0,
      liveStreams = [], openContexts = [], connectedSources = [], connectedProcessors = []\<rparr>"

text \<open>Sample inputs: a 1 x 1 video frame, two browser snapshots, and a hook state.\<close>

definition exampleVideo :: VideoElement where
  "exampleVideo = \<lparr>videoWidth = 1, videoHeight = 1, imagePixels = [0, 0, 0, 255]\<rparr>"

definition exampleIO :: CaptureIO where
  "exampleIO =
     \<lparr>videoCurrent = Some exampleVideo, contextAvailable = True,
      toDataURL = (\<lambda>pixels quality. ''data:image/jpeg;base64,AAAA''), dateNow = 1000\<rparr>"

definition exampleState :: "bytes option \<Rightarrow> CaptureState" where
  "exampleState prev =
     \<lparr>canvasSize = None, previousFrameData = prev, lastActivity = 0, frameCountRef = 0,
      skippedCountRef = 0, currentIntervalMs = 500, isIdle = False, frameCount = 0,
      skippedCount = 0, delivered = []\<rparr>"


definition exampleStore :: FileSearchStore where
  "exampleStore = \<lparr>storeName = ''fileSearchStores/123'', storeDisplayName = ''notes''\<rparr>"

definition exampleDoc :: "DocStatus \<Rightarrow> UploadedDocument" where
  "exampleDoc st =
     \<lparr>docUri = ''fileSearchStores/123/documents/a'', docName = ''a.pdf'',
      docMimeType = ''application/pdf'', docSize = 10, docStatus = Some st\<rparr>"

definition exampleInput :: "FileSearchStore option \<Rightarrow> UploadedDocument list option \<Rightarrow> ContextInput" where
  "exampleInput store docs =
     \<lparr>query = ''hello'', source = chat, screenImage = None, sketchImage = None,
      attachments = None, history = None, ragStore = store, documents = docs,
      metadataFilter = None\<rparr>"

definition exampleTransport :: Transport where
  "exampleTransport = \<lparr>connectCalls = [], connectSucceeds = True, nextSession = 0\<rparr>"

definition exampleProvider :: LiveAPI where
  "exampleProvider = initialLiveAPI\<lparr>clientRef := Some (newGenAILiveClient (buildLiveConfig None []))\<rparr>"

section \<open>Double arithmetic\<close>

lemma roundTiesToEven_le: "y \<le> of_int N \<Longrightarrow> roundTiesToEven y \<le> N"
proof -
  assume y: "y \<le> of_int N"
  have f: "of_int \<lfloor>y\<rfloor> \<le> y" by simp
  have n: "\<lfloor>y\<rfloor> \<le> N" using y f by linarith
  have "\<lfloor>y\<rfloor> + 1 \<le> N" if "1 / 2 \<le> y - of_int \<lfloor>y\<rfloor>"
  proof -
    have "(of_int \<lfloor>y\<rfloor> :: rat) < of_int N" using that y by linarith
    then show ?thesis by simp
  qed
  then show ?thesis using n unfolding roundTiesToEven_def Let_def by auto
qed

lemma roundTiesToEven_ge: "of_int N \<le> y \<Longrightarrow> N \<le> roundTiesToEven y"
proof -
  assume y: "of_int N \<le> y"
  have n: "N \<le> \<lfloor>y\<rfloor>" using y by (simp add: le_floor_iff)
  then show ?thesis unfolding roundTiesToEven_def Let_def by auto
qed

lemma roundTiesToEven_of_int: "roundTiesToEven (of_int n) = n"
  by (simp add: roundTiesToEven_def)

lemma exponent_le_0: "0 < x \<Longrightarrow> x \<le> 1 \<Longrightarrow> exponent x \<le> 0"
  by (simp add: exponent_def expUp.simps)

lemma roundDouble_0: "roundDouble 0 = 0"
  by (simp add: roundDouble_def)

lemma roundDouble_1: "roundDouble 1 = 1"
  by code_simp

lemma roundDouble_unit:
  assumes "0 \<le> x" "x \<le> 1"
  shows "0 \<le> roundDouble x \<and> roundDouble x \<le> 1"
proof (cases "x = 0")
  case True
  then show ?thesis by (simp add: roundDouble_0)
next
  case False
  then have pos: "0 < x" using assms(1) by simp
  define k where "k = max (exponent \<bar>x\<bar>) (- 1022) - 52"
  define N :: int where "N = 2 ^ nat (- k)"
  have "exponent \<bar>x\<bar> \<le> 0" using exponent_le_0[of x] pos assms(2) by simp
  then have k: "k < 0" unfolding k_def by simp
  have p: "(2::rat) powi k = 1 / of_int N"
    using k by (simp add: power_int_def N_def inverse_eq_divide power_one_over)
  have Npos: "0 < N" by (simp add: N_def)
  have r: "roundDouble x = of_int (roundTiesToEven (x * of_int N)) / of_int N"
    using False by (simp add: roundDouble_def k_def[symmetric] Let_def p)
  have "x * of_int N \<le> of_int N" using assms(2) Npos by simp
  then have u: "roundTiesToEven (x * of_int N) \<le> N" by (rule roundTiesToEven_le)
  have "of_int 0 \<le> x * of_int N" using assms(1) Npos by simp
  then have l: "0 \<le> roundTiesToEven (x * of_int N)" by (rule roundTiesToEven_ge)
  have u': "(of_int (roundTiesToEven (x * of_int N)) :: rat) \<le> of_int N" using u by simp
  have l': "(0 :: rat) \<le> of_int (roundTiesToEven (x * of_int N))" using l by simp
  have Npos': "(0 :: rat) < of_int N" using Npos by simp
  show ?thesis unfolding r using u' l' Npos' by (simp add: divide_le_eq_1)
qed

lemma expUp_bounds: "1 \<le> x \<Longrightarrow> 2 ^ expUp x \<le> x \<and> x < 2 ^ Suc (expUp x)"
proof (induction x rule: expUp.induct)
  case (1 x)
  show ?case
  proof (cases "2 \<le> x")
    case True
    then have "1 \<le> x / 2" by simp
    from "1.IH"[OF True this] have "2 ^ expUp (x / 2) \<le> x / 2" "x / 2 < 2 ^ Suc (expUp (x / 2))"
      by simp_all
    then have "2 * 2 ^ expUp (x / 2) \<le> x" "x < 2 * 2 ^ Suc (expUp (x / 2))" by linarith+
    moreover have "expUp x = Suc (expUp (x / 2))" using True by (subst expUp.simps) simp
    ultimately show ?thesis by simp
  next
    case False
    then have "expUp x = 0" by (subst expUp.simps) simp
    then show ?thesis using False "1.prems" by simp
  qed
qed

lemma expDown_bounds:
  "0 < x \<Longrightarrow> x < 1 \<Longrightarrow> 1 \<le> x * 2 ^ expDown x \<and> x * 2 ^ expDown x < 2"
proof (induction x rule: expDown.induct)
  case (1 x)
  have c: "0 < x \<and> x < 1" using "1.prems" by simp
  have e: "expDown x = Suc (expDown (x * 2))" using c by (subst expDown.simps) simp
  show ?case
  proof (cases "x * 2 < 1")
    case True
    have "0 < x * 2" using c by simp
    from "1.IH"[OF c this True] show ?thesis unfolding e by (simp add: mult.assoc)
  next
    case False
    then have "expDown (x * 2) = 0" by (subst expDown.simps) simp
    then show ?thesis unfolding e using False c by simp
  qed
qed

lemma exponent_bounds:
  assumes "0 < x"
  shows "2 powi exponent x \<le> x \<and> x < 2 powi (exponent x + 1)"
proof (cases "1 \<le> x")
  case True
  have e: "exponent x = int (expUp x)" using True by (simp add: exponent_def)
  have s: "int (expUp x) + 1 = int (Suc (expUp x))" by simp
  show ?thesis unfolding e s power_int_of_nat using expUp_bounds[OF True] .
next
  case False
  then have lt: "x < 1" by simp
  define d where "d = expDown x"
  have e: "exponent x = - int d" using False by (simp add: exponent_def d_def)
  have b: "1 \<le> x * 2 ^ d" "x * 2 ^ d < 2" using expDown_bounds[OF assms lt] by (simp_all add: d_def)
  have p: "(0::rat) < 2 ^ d" by simp
  have lo: "(2::rat) powi (- int d) = 1 / 2 ^ d"
    by (simp add: power_int_minus_divide)
  have "- int d + 1 = 1 - int d" by simp
  then have hi: "(2::rat) powi (- int d + 1) = 2 / 2 ^ d"
    by (simp add: power_int_diff)
  have "1 / 2 ^ d \<le> x" using b(1) p by (simp add: divide_le_eq)
  moreover have "x < 2 / 2 ^ d" using b(2) p by (simp add: less_divide_eq)
  ultimately show ?thesis unfolding e lo hi by simp
qed

text \<open>
  Flooring the double quotient of two integers below \<open>2^52\<close> gives their integer quotient:
  the rounding never reaches the next integer.
\<close>

lemma floor_roundDouble_div:
  assumes "0 \<le> a" "0 < b" "a < 2 ^ 52" "b < 2 ^ 52"
  shows "\<lfloor>roundDouble (of_int a / of_int b)\<rfloor> = a div b"
proof (cases "a = 0")
  case True
  then show ?thesis by (simp add: roundDouble_0)
next
  case False
  then have apos: "0 < a" using assms(1) by simp
  define x :: rat where "x = of_int a / of_int b"
  define e where "e = exponent \<bar>x\<bar>"
  define k where "k = max e (- 1022) - 52"
  define N :: int where "N = 2 ^ nat (- k)"
  define q where "q = a div b"
  have bpos: "(0::rat) < of_int b" using assms(2) by simp
  have xpos: "0 < x" unfolding x_def using apos bpos by simp
  have ex: "2 powi e \<le> x" "x < 2 powi (e + 1)"
    using exponent_bounds[OF xpos] xpos by (simp_all add: e_def)
  have "x \<le> of_int a" unfolding x_def using assms(2) apos
    by (simp add: divide_le_eq mult_le_cancel_left1)
  also have "(of_int a :: rat) < 2 ^ 52" using assms(3) by (metis of_int_less_numeral_power_cancel_iff)
  finally have x52: "x < 2 powi 52" by simp
  have "(2::rat) powi e < 2 powi 52" using ex(1) x52 by linarith
  then have e52: "e < 52" by (rule power_int_le_imp_less_exp[rotated]) simp_all
  have "1 \<le> x * of_int b" unfolding x_def using bpos apos by simp
  moreover have b52: "(of_int b :: rat) < 2 ^ 52"
    using assms(4) by (simp add: of_int_less_numeral_power_cancel_iff)
  moreover have "x * of_int b < x * 2 ^ 52" using mult_strict_left_mono[OF b52 xpos] .
  ultimately have "1 < x * 2 ^ 52" by linarith
  then have "2 powi (- 52) < x" by (simp add: power_int_minus_divide divide_less_eq)
  then have "(2::rat) powi (- 52) < 2 powi (e + 1)" using ex(2) by linarith
  then have em: "- 52 \<le> e"
    using power_int_increasing[of "e + 1" "- 52" "2::rat"] by (cases "- 52 \<le> e") simp_all
  have k: "k < 0" "k = e - 52" unfolding k_def using e52 em by simp_all
  have p: "(2::rat) powi k = 1 / of_int N"
    using k(1) by (simp add: power_int_def N_def inverse_eq_divide power_one_over)
  have Npos: "(0::rat) < of_int N" by (simp add: N_def)
  have Npow: "(of_int N :: rat) = 2 powi (52 - e)"
    using k by (simp add: N_def power_int_def)
  have "(2::rat) powi 52 = 2 powi e * 2 powi (52 - e)"
    by (simp add: power_int_add[symmetric])
  also have "\<dots> \<le> x * 2 powi (52 - e)" using ex(1) by (simp add: zero_less_power_int)
  also have "\<dots> = x * of_int N" unfolding Npow ..
  finally have mant: "2 ^ 52 \<le> x * of_int N" by simp
  have ab: "of_int a = x * of_int b" unfolding x_def using bpos by simp
  have "(2 ^ 52 :: rat) * of_int b \<le> (x * of_int N) * of_int b"
    using mult_right_mono[OF mant, of "of_int b"] bpos by simp
  also have "\<dots> = of_int a * of_int N" unfolding ab by (simp only: mult_ac)
  finally have "(2 ^ 52 :: rat) * of_int b \<le> of_int a * of_int N" .
  moreover have "(of_int a :: rat) < 2 ^ 52"
    using assms(3) by (simp add: of_int_less_numeral_power_cancel_iff)
  then have "(of_int a :: rat) * of_int b < 2 ^ 52 * of_int b"
    using bpos by (simp only: mult_strict_right_mono)
  ultimately have "(of_int a :: rat) * of_int b < of_int a * of_int N" by linarith
  then have bN: "(of_int b :: rat) < of_int N" using apos by simp
  have kk: "max (exponent \<bar>x\<bar>) (- 1022) - 52 = k" by (simp only: k_def e_def)
  have r: "roundDouble x = of_int (roundTiesToEven (x * of_int N)) / of_int N"
    unfolding roundDouble_def Let_def kk p using xpos by simp
  have m: "0 \<le> a mod b" "a mod b < b" using assms(2) by simp_all
  have qa: "q * b \<le> a" unfolding q_def using div_mult_mod_eq[of a b] m(1) by linarith
  have "a < q * b + b" unfolding q_def using div_mult_mod_eq[of a b] m(2) by linarith
  then have "a + 1 \<le> (q + 1) * b" by (simp add: algebra_simps)
  then have "(of_int (a + 1) :: rat) \<le> of_int ((q + 1) * b)" by (simp only: of_int_le_iff)
  then have "x * of_int b + 1 \<le> of_int (q + 1) * of_int b" unfolding ab[symmetric] by simp
  then have "(of_int (q + 1) - x) * of_int b \<ge> 1" by (simp add: algebra_simps)
  moreover have "(of_int (q + 1) - x) * of_int b \<le> (of_int (q + 1) - x) * of_int N"
  proof -
    have "0 \<le> of_int (q + 1) - x"
    proof (rule ccontr)
      assume "\<not> 0 \<le> of_int (q + 1) - x"
      then have "(of_int (q + 1) - x) * of_int b < 0" using bpos by (simp add: mult_less_0_iff)
      with \<open>(of_int (q + 1) - x) * of_int b \<ge> 1\<close> show False by linarith
    qed
    then show ?thesis using bN by (intro mult_left_mono) simp_all
  qed
  ultimately have "1 \<le> (of_int (q + 1) - x) * of_int N" by linarith
  then have "x * of_int N \<le> of_int ((q + 1) * N - 1)" by (simp add: algebra_simps)
  then have up: "roundTiesToEven (x * of_int N) \<le> (q + 1) * N - 1" by (rule roundTiesToEven_le)
  have "(of_int (q * b) :: rat) \<le> of_int a" using qa by (simp only: of_int_le_iff)
  then have "of_int q * of_int b \<le> x * of_int b" unfolding ab[symmetric] by simp
  then have "of_int q \<le> x" using bpos by simp
  then have "of_int (q * N) \<le> x * of_int N" using Npos by simp
  then have lo: "q * N \<le> roundTiesToEven (x * of_int N)" by (rule roundTiesToEven_ge)
  have lo': "of_int q \<le> roundDouble x"
  proof -
    have "(of_int (q * N) :: rat) \<le> of_int (roundTiesToEven (x * of_int N))"
      using lo by (simp only: of_int_le_iff)
    then show ?thesis unfolding r using Npos by (simp add: le_divide_eq)
  qed
  have up': "roundDouble x < of_int q + 1"
  proof -
    have "(of_int (roundTiesToEven (x * of_int N)) :: rat) \<le> of_int ((q + 1) * N - 1)"
      using up by (simp only: of_int_le_iff)
    then have "(of_int (roundTiesToEven (x * of_int N)) :: rat) < (of_int q + 1) * of_int N"
      by simp
    then show ?thesis unfolding r using Npos by (simp add: divide_less_eq)
  qed
  have "\<lfloor>roundDouble x\<rfloor> = q" using lo' up' by (rule floor_unique)
  then show ?thesis unfolding x_def q_def .
qed

lemma floorDiv_eq_div:
  assumes "0 < n" "n \<le> P" "P < 2 ^ 52"
  shows "floorDiv (int P) (int n) = int (P div n)"
proof -
  have "int P < 2 ^ 52" using assms(3) by (metis of_nat_less_numeral_power_cancel_iff)
  moreover have "int n < 2 ^ 52" using assms(2,3) by (metis le_less_trans of_nat_less_numeral_power_cancel_iff)
  ultimately show ?thesis
    unfolding floorDiv_def using floor_roundDouble_div[of "int P" "int n"] assms(1)
    by (simp add: zdiv_int)
qed

text \<open>The double quotient \<open>5 / 7\<close>, which lies above the exact one, and the literal \<open>0.95\<close>.\<close>

lemma roundDouble_examples:
  "roundDouble (5 / 7) = 6433713753386423 / 9007199254740992"
  "roundDouble (95 / 100) = 4278419646001971 / 4503599627370496"
  "roundDouble (75 / 100) = 3 / 4"
  by code_simp+

section \<open>Frame capture\<close>

subsection \<open>Outcomes of \<open>captureFrame\<close>\<close>

lemma num_ge_not_lt: "num_ge x t \<Longrightarrow> \<not> num_lt x t"
  by (cases x) auto

lemma captureFrame_reject:
  assumes "videoCurrent io = Some v" "videoWidth v \<noteq> 0" "videoHeight v \<noteq> 0" "contextAvailable io"
    and "previousFrameData s = Some prev"
    and "\<not> num_lt (compareFrames (diffSampleSize config) (imagePixels v) prev
                    (videoWidth v) (videoHeight v)) (diffThreshold config)"
  shows "captureFrame config io s =
           (None, s\<lparr>canvasSize := Some (videoWidth v, videoHeight v),
                     skippedCountRef := skippedCountRef s + 1,
                     skippedCount := skippedCountRef s + 1\<rparr>)"
  using assms by (auto simp: captureFrame_def getCanvas_def Let_def split: option.splits)

lemma captureFrame_accept:
  assumes "videoCurrent io = Some v" "videoWidth v \<noteq> 0" "videoHeight v \<noteq> 0" "contextAvailable io"
    and "previousFrameData s = Some prev"
    and "num_lt (compareFrames (diffSampleSize config) (imagePixels v) prev
                  (videoWidth v) (videoHeight v)) (diffThreshold config)"
  shows "captureFrame config io s =
           (Some \<lparr>data = secondPart (toDataURL io (imagePixels v)
                            (getAdaptiveQuality config (imagePixels v) (videoWidth v) (videoHeight v))),
                  width = videoWidth v, height = videoHeight v, timestamp = dateNow io,
                  isKeyFrame = True,
                  similarity = compareFrames (diffSampleSize config) (imagePixels v) prev
                                 (videoWidth v) (videoHeight v)\<rparr>,
            s\<lparr>canvasSize := Some (videoWidth v, videoHeight v),
              previousFrameData := Some (imagePixels v),
              frameCountRef := frameCountRef s + 1,
              frameCount := frameCountRef s + 1\<rparr>)"
  using assms by (auto simp: captureFrame_def getCanvas_def Let_def split: option.splits)

lemma captureFrame_first:
  assumes "videoCurrent io = Some v" "videoWidth v \<noteq> 0" "videoHeight v \<noteq> 0" "contextAvailable io"
    and "previousFrameData s = None"
  shows "captureFrame config io s =
           (Some \<lparr>data = secondPart (toDataURL io (imagePixels v)
                            (getAdaptiveQuality config (imagePixels v) (videoWidth v) (videoHeight v))),
                  width = videoWidth v, height = videoHeight v, timestamp = dateNow io,
                  isKeyFrame = True, similarity = Num 0\<rparr>,
            s\<lparr>canvasSize := Some (videoWidth v, videoHeight v),
              previousFrameData := Some (imagePixels v),
              frameCountRef := frameCountRef s + 1,
              frameCount := frameCountRef s + 1\<rparr>)"
  using assms by (auto simp: captureFrame_def getCanvas_def Let_def split: option.splits)




lemma captureFrame_idle_irrelevant:
  "fst (captureFrame config io (s\<lparr>isIdle := a, currentIntervalMs := b\<rparr>))
     = fst (captureFrame config io s)"
  by (auto simp: captureFrame_def getCanvas_def Let_def split: option.splits if_splits prod.splits)

lemma captureFrame_delivered:
  "delivered (snd (captureFrame config io s)) = delivered s"
  by (auto simp: captureFrame_def getCanvas_def Let_def split: option.splits if_splits prod.splits)

lemma runCaptureLoop_delivered:
  "delivered (runCaptureLoop config cb io s) =
     (case fst (captureFrame config io s) of
        None \<Rightarrow> delivered s
      | Some f \<Rightarrow> if cb then delivered s @ [f] else delivered s)"
proof -
  define s1 where "s1 =
    (if (dateNow io - lastActivity s > idleTimeoutMs config) \<noteq> isIdle s
     then s\<lparr>isIdle := (dateNow io - lastActivity s > idleTimeoutMs config),
            currentIntervalMs := (if dateNow io - lastActivity s > idleTimeoutMs config
                                  then maxIntervalMs config else minIntervalMs config)\<rparr>
     else s)"
  have f: "fst (captureFrame config io s1) = fst (captureFrame config io s)"
    unfolding s1_def by (simp add: captureFrame_idle_irrelevant)
  have d: "delivered (snd (captureFrame config io s1)) = delivered s"
    unfolding s1_def by (simp add: captureFrame_delivered)
  have r: "runCaptureLoop config cb io s =
             (case captureFrame config io s1 of
                (Some frame, s2) \<Rightarrow> (if cb then s2\<lparr>delivered := delivered s2 @ [frame]\<rparr> else s2)
              | (None, s2) \<Rightarrow> s2)"
    unfolding runCaptureLoop_def s1_def Let_def by simp
  obtain r1 r2 where c: "captureFrame config io s1 = (r1, r2)" by (cases "captureFrame config io s1")
  have f': "fst (captureFrame config io s) = r1" using f c by simp
  have d': "delivered r2 = delivered s" using d c by simp
  show ?thesis unfolding r c f' using d' by (cases r1) simp_all
qed


subsection \<open>The similarity threshold\<close>

text \<open>
  C1. A call to \<open>captureFrame\<close> that finds a usable video, a drawing context and a stored
  previous-frame buffer computes the similarity to that buffer. If the similarity is at
  least \<open>diffThreshold\<close>, the call returns null, the tick of the capture loop delivers no
  frame, and the skip counter goes up by exactly one while the frame counter stays. If the
  similarity is below \<open>diffThreshold\<close>, a frame is returned (and delivered by the tick), and
  the frame counter goes up by exactly one while the skip counter stays. The similarity is
  the number that \<open>compareFrames\<close> returns: the quotient of two counts, rounded to a double.
\<close>

theorem captureFrame_threshold:
  assumes "videoCurrent io = Some v" "videoWidth v \<noteq> 0" "videoHeight v \<noteq> 0" "contextAvailable io"
    and "previousFrameData s = Some prev"
  shows "(num_ge (compareFrames (diffSampleSize config) (imagePixels v) prev
                    (videoWidth v) (videoHeight v)) (diffThreshold config) \<longrightarrow>
            fst (captureFrame config io s) = None
          \<and> delivered (runCaptureLoop config cb io s) = delivered s
          \<and> skippedCountRef (snd (captureFrame config io s)) = skippedCountRef s + 1
          \<and> skippedCount (snd (captureFrame config io s)) = skippedCountRef s + 1
          \<and> frameCountRef (snd (captureFrame config io s)) = frameCountRef s
          \<and> frameCount (snd (captureFrame config io s)) = frameCount s)
       \<and> (num_lt (compareFrames (diffSampleSize config) (imagePixels v) prev
                    (videoWidth v) (videoHeight v)) (diffThreshold config) \<longrightarrow>
            (\<exists>f. fst (captureFrame config io s) = Some f
                \<and> delivered (runCaptureLoop config True io s) = delivered s @ [f])
          \<and> frameCountRef (snd (captureFrame config io s)) = frameCountRef s + 1
          \<and> frameCount (snd (captureFrame config io s)) = frameCountRef s + 1
          \<and> skippedCountRef (snd (captureFrame config io s)) = skippedCountRef s
          \<and> skippedCount (snd (captureFrame config io s)) = skippedCount s)"
proof (intro conjI impI)
  assume ge: "num_ge (compareFrames (diffSampleSize config) (imagePixels v) prev
                        (videoWidth v) (videoHeight v)) (diffThreshold config)"
  note r = captureFrame_reject[OF assms num_ge_not_lt[OF ge]]
  show "fst (captureFrame config io s) = None" by (simp add: r)
  show "delivered (runCaptureLoop config cb io s) = delivered s"
    by (simp add: runCaptureLoop_delivered r)
  show "skippedCountRef (snd (captureFrame config io s)) = skippedCountRef s + 1" by (simp add: r)
  show "skippedCount (snd (captureFrame config io s)) = skippedCountRef s + 1" by (simp add: r)
  show "frameCountRef (snd (captureFrame config io s)) = frameCountRef s" by (simp add: r)
  show "frameCount (snd (captureFrame config io s)) = frameCount s" by (simp add: r)
next
  assume lt: "num_lt (compareFrames (diffSampleSize config) (imagePixels v) prev
                        (videoWidth v) (videoHeight v)) (diffThreshold config)"
  note a = captureFrame_accept[OF assms lt]
  show "\<exists>f. fst (captureFrame config io s) = Some f
           \<and> delivered (runCaptureLoop config True io s) = delivered s @ [f]"
    by (simp add: runCaptureLoop_delivered a)
  show "frameCountRef (snd (captureFrame config io s)) = frameCountRef s + 1" by (simp add: a)
  show "frameCount (snd (captureFrame config io s)) = frameCountRef s + 1" by (simp add: a)
  show "skippedCountRef (snd (captureFrame config io s)) = skippedCountRef s" by (simp add: a)
  show "skippedCount (snd (captureFrame config io s)) = skippedCount s" by (simp add: a)
qed

theorem captureFrame_threshold_witness:
  "fst (captureFrame DEFAULT_SCREEN_CAPTURE_CONFIG exampleIO (exampleState (Some [0, 0, 0, 255]))) = None
 \<and> skippedCountRef (snd (captureFrame DEFAULT_SCREEN_CAPTURE_CONFIG exampleIO
                            (exampleState (Some [0, 0, 0, 255]))))
     = skippedCountRef (exampleState (Some [0, 0, 0, 255])) + 1
 \<and> delivered (runCaptureLoop DEFAULT_SCREEN_CAPTURE_CONFIG True exampleIO
                 (exampleState (Some [0, 0, 0, 255])))
     = delivered (exampleState (Some [0, 0, 0, 255]))
 \<and> (\<exists>f. fst (captureFrame DEFAULT_SCREEN_CAPTURE_CONFIG exampleIO
                 (exampleState (Some [200, 0, 0, 255]))) = Some f
       \<and> delivered (runCaptureLoop DEFAULT_SCREEN_CAPTURE_CONFIG True exampleIO
                       (exampleState (Some [200, 0, 0, 255])))
           = delivered (exampleState (Some [200, 0, 0, 255])) @ [f])
 \<and> frameCountRef (snd (captureFrame DEFAULT_SCREEN_CAPTURE_CONFIG exampleIO
                          (exampleState (Some [200, 0, 0, 255]))))
     = frameCountRef (exampleState (Some [200, 0, 0, 255])) + 1"
proof -
  have v: "videoCurrent exampleIO = Some exampleVideo" "videoWidth exampleVideo \<noteq> 0"
    "videoHeight exampleVideo \<noteq> 0" "contextAvailable exampleIO"
    by (simp_all add: exampleIO_def exampleVideo_def)
  have p1: "previousFrameData (exampleState (Some [0, 0, 0, 255])) = Some [0, 0, 0, 255]"
    and p2: "previousFrameData (exampleState (Some [200, 0, 0, 255])) = Some [200, 0, 0, 255]"
    by (simp_all add: exampleState_def)
  have ge: "num_ge (compareFrames (diffSampleSize DEFAULT_SCREEN_CAPTURE_CONFIG)
                      (imagePixels exampleVideo) [0, 0, 0, 255]
                      (videoWidth exampleVideo) (videoHeight exampleVideo))
                   (diffThreshold DEFAULT_SCREEN_CAPTURE_CONFIG)"
    by code_simp
  have lt: "num_lt (compareFrames (diffSampleSize DEFAULT_SCREEN_CAPTURE_CONFIG)
                      (imagePixels exampleVideo) [200, 0, 0, 255]
                      (videoWidth exampleVideo) (videoHeight exampleVideo))
                   (diffThreshold DEFAULT_SCREEN_CAPTURE_CONFIG)"
    by code_simp
  show ?thesis
    using captureFrame_threshold[OF v p1, of DEFAULT_SCREEN_CAPTURE_CONFIG True] ge
          captureFrame_threshold[OF v p2, of DEFAULT_SCREEN_CAPTURE_CONFIG True] lt
    by blast
qed

subsection \<open>The comparison baseline\<close>



subsection \<open>Delivered frames are key frames\<close>

text \<open>
  C10. Every frame that \<open>captureFrame\<close> returns has \<open>isKeyFrame\<close> true: a frame whose
  similarity is not below the threshold is not returned at all.
\<close>

theorem returned_frames_are_key_frames:
  "fst (captureFrame config io s) = Some f \<Longrightarrow> isKeyFrame f"
  by (auto simp: captureFrame_def getCanvas_def Let_def split: option.splits if_splits prod.splits)

theorem returned_frames_are_key_frames_witness:
  "\<exists>f. fst (captureFrame DEFAULT_SCREEN_CAPTURE_CONFIG exampleIO
              (exampleState (Some [200, 0, 0, 255]))) = Some f \<and> isKeyFrame f"
proof -
  have "fst (captureFrame DEFAULT_SCREEN_CAPTURE_CONFIG exampleIO
               (exampleState (Some [200, 0, 0, 255]))) \<noteq> None"
    by code_simp
  then show ?thesis using returned_frames_are_key_frames by blast
qed


section \<open>Frame similarity\<close>

lemma sample_cond:
  assumes "4 * k + 2 < length cur" "4 * k + 2 < length prev"
  shows "(le_num (absDiff (readByte cur (int k * 4)) (readByte prev (int k * 4))) tolerance
        \<and> le_num (absDiff (readByte cur (int k * 4 + 1)) (readByte prev (int k * 4 + 1))) tolerance
        \<and> le_num (absDiff (readByte cur (int k * 4 + 2)) (readByte prev (int k * 4 + 2))) tolerance)
       = pixelMatches cur prev k"
proof -
  have n0: "nat (int k * 4) = 4 * k" by (simp add: nat_mult_distrib)
  have n1: "nat (int k * 4 + 1) = 4 * k + 1" by (simp add: nat_add_distrib nat_mult_distrib)
  have n2: "nat (int k * 4 + 2) = 4 * k + 2" by (simp add: nat_add_distrib nat_mult_distrib)
  show ?thesis using assms
    by (simp add: readByte_def absDiff_def le_num_def tolerance_def pixelMatches_def n0 n1 n2)
qed

lemma compareLoop_count:
  assumes "0 \<le> i" "0 \<le> step"
    and "\<And>j. i \<le> j \<Longrightarrow> j < n \<Longrightarrow> 4 * (nat j * nat step) + 2 < length cur"
    and "length prev = length cur"
  shows "compareLoop cur prev step n i m =
           m + int (length (filter (\<lambda>j. pixelMatches cur prev (j * nat step)) [nat i..<nat n]))"
  using assms
proof (induction cur prev step n i m rule: compareLoop.induct)
  case (1 cur prev step n i m)
  show ?case
  proof (cases "i < n")
    case False
    then show ?thesis by (subst compareLoop.simps) simp
  next
    case True
    have k: "i * step = int (nat i * nat step)" using "1.prems"(1,2) by (simp add: nat_mult_distrib)
    have rng: "4 * (nat i * nat step) + 2 < length cur" using "1.prems"(3)[of i] True by simp
    have cond: "(le_num (absDiff (readByte cur (i * step * 4)) (readByte prev (i * step * 4))) tolerance
        \<and> le_num (absDiff (readByte cur (i * step * 4 + 1)) (readByte prev (i * step * 4 + 1))) tolerance
        \<and> le_num (absDiff (readByte cur (i * step * 4 + 2)) (readByte prev (i * step * 4 + 2))) tolerance)
       = pixelMatches cur prev (nat i * nat step)"
      unfolding k using sample_cond[of "nat i * nat step" cur prev] rng "1.prems"(4) by simp
    have lt: "nat i < nat n" using True "1.prems"(1) by linarith
    have sc: "Suc (nat i) = nat (i + 1)" using "1.prems"(1) by linarith
    have upt: "[nat i..<nat n] = nat i # [nat (i + 1)..<nat n]"
      using upt_conv_Cons[OF lt] sc by simp
    have p3: "\<And>j. i + 1 \<le> j \<Longrightarrow> j < n \<Longrightarrow> 4 * (nat j * nat step) + 2 < length cur"
      using "1.prems"(3) by simp
    have p1: "0 \<le> i + 1" using "1.prems"(1) by simp
    note ih = "1.IH"[OF True refl refl refl refl p1 "1.prems"(2) p3 "1.prems"(4)]
    show ?thesis
      apply (subst compareLoop.simps)
      apply (simp only: True if_True Let_def ih)
      apply (simp only: cond upt)
      apply (simp del: compareLoop.simps)
      done
  qed
qed

lemma sampled_in_range:
  assumes "0 < n" "n \<le> P" "j < n"
  shows "4 * (j * (P div n)) + 2 < 4 * (P::nat)"
proof -
  have "Suc j * (P div n) \<le> n * (P div n)" using assms(3) by (intro mult_le_mono1) simp
  also have "\<dots> \<le> P" by (simp add: mult.commute)
  finally have a: "j * (P div n) + P div n \<le> P" by simp
  have "1 \<le> P div n" using assms(1,2) by (simp add: div_greater_zero_iff Suc_le_eq)
  with a have "j * (P div n) < P" by linarith
  then show ?thesis by linarith
qed

lemma compareFrames_sampled:
  assumes "1 \<le> ds" "0 < w * h" "w * h < 2 ^ 52" "length cur = 4 * (w * h)"
    and "length prev = length cur"
  shows "compareFrames ds cur prev w h =
           js_div (int (sampledMatches cur prev (nat (min ds (int (w * h))))
                          ((w * h) div nat (min ds (int (w * h))))))
                  (int (nat (min ds (int (w * h)))))"
proof -
  define P where "P = w * h"
  define n where "n = nat (min ds (int P))"
  have P_pos: "0 < P" using assms(2) by (simp only: P_def)
  have P_small: "P < 2 ^ 52" using assms(3) by (simp only: P_def)
  have len: "length cur = 4 * P" using assms(4) by (simp only: P_def)
  have n_pos: "0 < n" using assms(1) P_pos unfolding n_def by linarith
  have n_le: "n \<le> P" unfolding n_def by linarith
  have n_int: "min ds (int P) = int n" using assms(1) P_pos unfolding n_def by linarith
  have step: "floorDiv (int P) (int n) = int (P div n)"
    using n_pos n_le P_small by (rule floorDiv_eq_div)
  have rng: "\<And>j. (0::int) \<le> j \<Longrightarrow> j < int n \<Longrightarrow>
               4 * (nat j * nat (int (P div n))) + 2 < length cur"
    using sampled_in_range[OF n_pos n_le] len by simp
  have loop: "compareLoop cur prev (int (P div n)) (int n) 0 0 =
                int (sampledMatches cur prev n (P div n))"
    using compareLoop_count[of 0 "int (P div n)" "int n" cur prev 0, OF _ _ rng assms(5)]
    by (simp add: sampledMatches_def)
  have "compareFrames ds cur prev w h = js_div (int (sampledMatches cur prev n (P div n))) (int n)"
    unfolding compareFrames_def Let_def P_def[symmetric] n_int step loop using assms(5) by simp
  then show ?thesis unfolding n_def P_def .
qed

lemma sampledMatches_le: "sampledMatches cur prev n step \<le> n"
  unfolding sampledMatches_def using length_filter_le[of _ "[0..<n]"] by simp

lemma sampledMatches_same: "sampledMatches cur cur n step = n"
  by (simp add: sampledMatches_def pixelMatches_def)

lemma compareFrames_length_differs:
  "length cur \<noteq> length prev \<Longrightarrow> compareFrames ds cur prev w h = Num 0"
  by (simp add: compareFrames_def)

lemma js_div_same: "0 < n \<Longrightarrow> js_div n n = Num 1"
  by (simp add: js_div_def roundDouble_1)

lemma js_div_unit:
  assumes "0 \<le> m" "m \<le> n" "0 < n"
  shows "\<exists>q. js_div m n = Num q \<and> 0 \<le> q \<and> q \<le> 1"
proof -
  have "(0::rat) \<le> of_int m / of_int n" using assms(1,3) by simp
  moreover have "(of_int m :: rat) / of_int n \<le> 1" using assms(2,3) by (simp add: divide_le_eq_1)
  ultimately show ?thesis
    using roundDouble_unit[of "of_int m / of_int n"] assms(3) by (simp add: js_div_def)
qed

text \<open>
  With a sample size of at least one, on the pixel buffers of a \<open>w\<close> by \<open>h\<close> frame (four
  bytes per pixel, at least one pixel, fewer than \<open>2^52\<close>), \<open>compareFrames\<close> does what its
  comment says: identical buffers have similarity 1; buffers of different lengths have
  similarity 0; otherwise the similarity is the quotient, as JavaScript computes it, of the
  number of matching sampled pixels by the sample size, where a pixel matches exactly when
  its red, green and blue bytes each differ by at most 10 from the previous frame's; and
  the result is a number between 0 and 1.
\<close>

lemma compareFrames_similarity:
  assumes "1 \<le> ds" "0 < w * h" "w * h < 2 ^ 52" "length cur = 4 * (w * h)"
  shows "(prev = cur \<longrightarrow> compareFrames ds cur prev w h = Num 1)
       \<and> (length prev \<noteq> length cur \<longrightarrow> compareFrames ds cur prev w h = Num 0)
       \<and> (length prev = length cur \<longrightarrow>
            compareFrames ds cur prev w h =
              js_div (int (sampledMatches cur prev (nat (min ds (int (w * h))))
                             ((w * h) div nat (min ds (int (w * h))))))
                     (int (nat (min ds (int (w * h))))))
       \<and> (\<exists>q. compareFrames ds cur prev w h = Num q \<and> 0 \<le> q \<and> q \<le> 1)"
proof (intro conjI impI)
  have n_pos: "0 < int (nat (min ds (int (w * h))))" using assms(1,2) by linarith
  show "compareFrames ds cur prev w h = Num 1" if "prev = cur"
  proof -
    have "compareFrames ds cur cur w h =
            js_div (int (nat (min ds (int (w * h))))) (int (nat (min ds (int (w * h)))))"
      using compareFrames_sampled[OF assms, of cur] by (simp only: sampledMatches_same)
    also have "\<dots> = Num 1" using n_pos by (rule js_div_same)
    finally show ?thesis using that by simp
  qed
  show "compareFrames ds cur prev w h = Num 0" if "length prev \<noteq> length cur"
    using compareFrames_length_differs[of cur prev] that by simp
  show "compareFrames ds cur prev w h =
              js_div (int (sampledMatches cur prev (nat (min ds (int (w * h))))
                             ((w * h) div nat (min ds (int (w * h))))))
                     (int (nat (min ds (int (w * h)))))" if "length prev = length cur"
    using compareFrames_sampled[OF assms that] .
  show "\<exists>q. compareFrames ds cur prev w h = Num q \<and> 0 \<le> q \<and> q \<le> 1"
  proof (cases "length prev = length cur")
    case False
    then show ?thesis using compareFrames_length_differs[of cur prev] by simp
  next
    case True
    have le: "int (sampledMatches cur prev (nat (min ds (int (w * h))))
                 ((w * h) div nat (min ds (int (w * h))))) \<le> int (nat (min ds (int (w * h))))"
      using sampledMatches_le by (simp only: of_nat_le_iff)
    show ?thesis
      unfolding compareFrames_sampled[OF assms True]
      by (rule js_div_unit[OF _ le n_pos]) simp
  qed
qed

lemma compareFrames_examples:
  "compareFrames 100 [0, 0, 0, 255, 9, 9, 9, 9] [0, 0, 0, 255, 9, 9, 9, 9] 2 1 = Num 1"
  "compareFrames 100 [0, 0, 0, 255, 9, 9, 9, 9] [0, 0, 0, 255] 2 1 = Num 0"
  "compareFrames 100 [0, 0, 0, 255, 9, 9, 9, 9] [10, 0, 0, 0, 9, 9, 20, 9] 2 1 = Num (1 / 2)"
  by code_simp+

text \<open>
  The similarity is the rounded quotient. On a frame of seven pixels of which five match,
  it is the double \<open>0.7142857142857143\<close>, which lies above \<open>5 / 7\<close>; against a threshold of
  that value the frame is rejected.
\<close>

lemma compareFrames_rounds_quotient:
  "compareFrames 100 (concat (replicate 7 [0, 0, 0, 255]))
     (concat (replicate 5 [0, 0, 0, 255]) @ concat (replicate 2 [200, 0, 0, 255])) 7 1
     = Num (6433713753386423 / 9007199254740992)"
  "num_ge (compareFrames 100 (concat (replicate 7 [0, 0, 0, 255]))
             (concat (replicate 5 [0, 0, 0, 255]) @ concat (replicate 2 [200, 0, 0, 255])) 7 1)
          (roundDouble (7142857142857143 / 10000000000000000))"
  "fst (captureFrame
          (DEFAULT_SCREEN_CAPTURE_CONFIG
             \<lparr>diffThreshold := roundDouble (7142857142857143 / 10000000000000000)\<rparr>)
          (exampleIO\<lparr>videoCurrent :=
             Some \<lparr>videoWidth = 7, videoHeight = 1,
                   imagePixels = concat (replicate 7 [0, 0, 0, 255])\<rparr>\<rparr>)
          (exampleState
             (Some (concat (replicate 5 [0, 0, 0, 255]) @ concat (replicate 2 [200, 0, 0, 255])))))
     = None"
  by code_simp+

subsection \<open>A sample size that is not positive\<close>

lemma compareFrames_zero_sample_size:
  "length prev = length cur \<Longrightarrow> compareFrames 0 cur prev w h = NaN"
  by (simp add: compareFrames_def compareLoop.simps js_div_def)

text \<open>
  With \<open>diffSampleSize\<close> zero, every call that compares a frame with a stored frame of the
  same size skips it, whatever the pixels: NaN is not below the threshold.
\<close>

lemma captureFrame_zero_sample_size:
  assumes "videoCurrent io = Some v" "videoWidth v \<noteq> 0" "videoHeight v \<noteq> 0" "contextAvailable io"
    and "previousFrameData s = Some prev" "length prev = length (imagePixels v)"
    and "diffSampleSize config = 0"
  shows "fst (captureFrame config io s) = None"
proof -
  have "\<not> num_lt (compareFrames (diffSampleSize config) (imagePixels v) prev
                     (videoWidth v) (videoHeight v)) (diffThreshold config)"
    using assms(6,7) by (simp add: compareFrames_zero_sample_size)
  from captureFrame_reject[OF assms(1-5) this] show ?thesis by simp
qed

text \<open>
  C6. The claim holds for a positive sample size only. \<open>compareFrames\<close> divides by the
  sample size whatever it is, and \<open>diffSampleSize\<close> comes unchecked from the caller's
  configuration. With \<open>diffSampleSize\<close> zero the quotient is \<open>0 / 0\<close>: the similarity of any
  buffer to itself is NaN, not 1, and it is not a number between 0 and 1. With a negative
  \<open>diffSampleSize\<close> no pixel is sampled and the similarity of any buffer to itself is 0.
\<close>

theorem compareFrames_degenerate_sample_size:
  "compareFrames 0 cur cur w h = NaN
 \<and> compareFrames (- int (Suc n)) cur cur w h = Num 0"
proof
  show "compareFrames 0 cur cur w h = NaN"
    by (simp add: compareFrames_def compareLoop.simps js_div_def)
  have m: "min (- int (Suc n)) (int (w * h)) = - int (Suc n)" by linarith
  have l: "compareLoop cur cur st (- int (Suc n)) 0 0 = 0" for st
    by (subst compareLoop.simps) simp
  have "compareFrames (- int (Suc n)) cur cur w h = js_div 0 (- int (Suc n))"
    unfolding compareFrames_def Let_def m l by simp
  also have "\<dots> = Num 0" by (simp add: js_div_def roundDouble_0)
  finally show "compareFrames (- int (Suc n)) cur cur w h = Num 0" .
qed

section \<open>PCM16 round trip\<close>

lemma int16_bytes_roundtrip:
  "((push_bit 8 (ucast (ucast (drop_bit 8 w) :: 8 word)) OR ucast (ucast w :: 8 word)) :: 16 word) = (w :: 16 word)"
  by (rule bit_word_eqI) (auto simp: bit_simps)

lemma sint_toInt16:
  assumes "- 32768 \<le> k" "k < 32768"
  shows "sint (word_of_int k :: 16 word) = k"
  using assms by (simp add: sint_sbintrunc' signed_take_bit_int_eq_self)

lemma length_sampleBytes: "length (concat (map sampleBytes xs)) = 2 * length xs"
  by (induction xs) (simp_all add: sampleBytes_def)

lemma floatLoop_inv:
  assumes "i \<le> length input"
  shows "floatLoop input (concat (map sampleBytes (take i input)) @ replicate (2 * (length input - i)) 0) i
           = Inr (concat (map sampleBytes input))"
  using assms
proof (induction "length input - i" arbitrary: i)
  case 0
  then show ?case by (simp add: floatLoop.simps)
next
  case (Suc k)
  then have lt: "i < length input" and k: "length input - Suc i = k" by simp_all
  let ?pre = "concat (map sampleBytes (take i input))"
  have lp: "length ?pre = 2 * i" using lt by (simp add: length_sampleBytes)
  have rep: "replicate (2 * (length input - i)) (0 :: 8 word) = 0 # 0 # replicate (2 * k) 0"
    using Suc.hyps(2) by (metis mult_Suc_right add_2_eq_Suc replicate_Suc)
  have set: "setInt16 (?pre @ replicate (2 * (length input - i)) 0) (i * 2) (toInt16 (scaled (input ! i)))
               = Inr (concat (map sampleBytes (take (Suc i) input)) @ replicate (2 * (length input - Suc i)) 0)"
    unfolding setInt16_def rep k using lp lt
    by (simp add: take_Suc_conv_app_nth sampleBytes_def list_update_append mult.commute)
  have IH: "floatLoop input (concat (map sampleBytes (take (Suc i) input)) @ replicate (2 * (length input - Suc i)) 0) (Suc i)
           = Inr (concat (map sampleBytes input))"
    using Suc.hyps(1)[of "Suc i"] k lt by simp
  show ?case
    apply (subst floatLoop.simps)
    using lt set IH by (simp add: scaled_def Let_def)
qed

lemma floatTo16BitPCM_eq: "floatTo16BitPCM input = Inr (concat (map sampleBytes input))"
  using floatLoop_inv[of 0 input] by (simp add: floatTo16BitPCM_def mult.commute)

lemma nth_sampleBytes:
  assumes "i < length xs"
  shows "concat (map sampleBytes xs) ! (2 * i) = ucast (toInt16 (scaled (xs ! i)))"
    and "concat (map sampleBytes xs) ! (2 * i + 1) = ucast (drop_bit 8 (toInt16 (scaled (xs ! i))))"
  using assms
proof (induction xs arbitrary: i)
  case Nil
  { case 1 then show ?case by simp }
  { case 2 then show ?case by simp }
next
  case (Cons x xs)
  { case 1 then show ?case using Cons.IH(1)[of "i - 1"] by (cases i) (simp_all add: sampleBytes_def) }
  { case 2 then show ?case using Cons.IH(2)[of "i - 1"] by (cases i) (simp_all add: sampleBytes_def) }
qed

lemma getInt16_sample:
  assumes "i < length xs"
  shows "getInt16 (concat (map sampleBytes xs)) (i * 2) = Inr (sint (toInt16 (scaled (xs ! i))))"
  using assms nth_sampleBytes[OF assms]
  by (simp add: getInt16_def length_sampleBytes mult.commute int16_bytes_roundtrip)


lemma pcmLoop_inv:
  assumes "i \<le> length xs"
  shows "pcmLoop (concat (map sampleBytes xs)) (map decodedSample (take i xs) @ replicate (length xs - i) 0) i
           = Inr (map decodedSample xs)"
  using assms
proof (induction "length xs - i" arbitrary: i)
  case 0
  then show ?case by (subst pcmLoop.simps) (simp add: length_sampleBytes)
next
  case (Suc k)
  then have lt: "i < length xs" and k: "length xs - Suc i = k" by simp_all
  have rep: "replicate (length xs - i) (0 :: rat) = 0 # replicate k 0"
    using Suc.hyps(2) by (metis replicate_Suc)
  have upd: "(map decodedSample (take i xs) @ replicate (length xs - i) 0)[i := decodedSample (xs ! i)]
               = map decodedSample (take (Suc i) xs) @ replicate (length xs - Suc i) 0"
    unfolding rep k using lt by (simp add: take_Suc_conv_app_nth list_update_append)
  have IH: "pcmLoop (concat (map sampleBytes xs)) (map decodedSample (take (Suc i) xs) @ replicate (length xs - Suc i) 0) (Suc i)
           = Inr (map decodedSample xs)"
    using Suc.hyps(1)[of "Suc i"] k lt by simp
  show ?case
    apply (subst pcmLoop.simps)
    using lt getInt16_sample[OF lt] upd IH by (simp add: length_sampleBytes decodedSample_def)
qed

lemma pcm16ToFloat_eq: "pcm16ToFloat (concat (map sampleBytes xs)) = Inr (map decodedSample xs)"
  using pcmLoop_inv[of 0 xs] by (simp add: pcm16ToFloat_def length_sampleBytes)

lemma scaled_range: "- 32768 \<le> scaled x \<and> scaled x \<le> 32767"
  by (auto simp: scaled_def Let_def max_def min_def)

lemma jsTrunc_range:
  assumes "- 32768 \<le> q" "q \<le> 32767"
  shows "- 32768 \<le> jsTrunc q \<and> jsTrunc q < 32768"
proof (cases "q < 0")
  case True
  have "\<lfloor>- q\<rfloor> \<le> \<lfloor>32768 :: rat\<rfloor>" using assms(1) by (intro floor_mono) linarith
  then have a: "\<lfloor>- q\<rfloor> \<le> 32768" by simp
  have "\<lfloor>0 :: rat\<rfloor> \<le> \<lfloor>- q\<rfloor>" using True by (intro floor_mono) linarith
  then have b: "0 \<le> \<lfloor>- q\<rfloor>" by simp
  have j: "jsTrunc q = - \<lfloor>- q\<rfloor>" using True by (simp add: jsTrunc_def)
  show ?thesis unfolding j using a b by linarith
next
  case False
  have "\<lfloor>q\<rfloor> \<le> \<lfloor>32767 :: rat\<rfloor>" using assms(2) by (intro floor_mono)
  then have a: "\<lfloor>q\<rfloor> \<le> 32767" by simp
  have "\<lfloor>0 :: rat\<rfloor> \<le> \<lfloor>q\<rfloor>" using False by (intro floor_mono) linarith
  then have b: "0 \<le> \<lfloor>q\<rfloor>" by simp
  have j: "jsTrunc q = \<lfloor>q\<rfloor>" using False by (simp add: jsTrunc_def)
  show ?thesis unfolding j using a b by linarith
qed

lemma decodedSample_quantized: "decodedSample x = quantized x"
  using jsTrunc_range[OF conjunct1[OF scaled_range] conjunct2[OF scaled_range], of x]
  by (simp add: decodedSample_def quantized_def toInt16_def sint_toInt16)

lemma quantized_negative:
  assumes "- 1 \<le> x" "x < 0"
  shows "0 \<le> quantized x - x" and "quantized x - x < 1 / 32768"
proof -
  have s: "scaled x = x * 32768" using assms by (simp add: scaled_def Let_def max_def min_def)
  define f :: rat where "f = of_int \<lfloor>- (x * 32768)\<rfloor>"
  have k: "quantized x = - f / 32768"
    using assms(2) by (simp add: quantized_def jsTrunc_def s f_def)
  have b: "f \<le> - (x * 32768)" "- (x * 32768) < f + 1" unfolding f_def by linarith+
  have e: "quantized x - x = (- f - x * 32768) / 32768" unfolding k by (simp add: field_simps)
  show "0 \<le> quantized x - x" unfolding e using b(1) by simp
  show "quantized x - x < 1 / 32768" unfolding e using b(2) by (simp add: divide_strict_right_mono)
qed

lemma quantized_nonnegative:
  assumes "0 \<le> x" "x \<le> 1"
  shows "0 \<le> x - quantized x" and "x - quantized x < (1 + x) / 32768"
proof -
  have s: "scaled x = x * 32767" using assms by (simp add: scaled_def Let_def max_def min_def)
  define f :: rat where "f = of_int \<lfloor>x * 32767\<rfloor>"
  have s0: "\<not> x * 32767 < 0" using assms(1) by simp
  have k: "quantized x = f / 32768"
    using s0 by (simp add: quantized_def jsTrunc_def s f_def)
  have b: "f \<le> x * 32767" "x * 32767 < f + 1" unfolding f_def by linarith+
  have e: "x - quantized x = (x * 32768 - f) / 32768" unfolding k by (simp add: field_simps)
  show "0 \<le> x - quantized x" unfolding e using b(1) assms(1) by simp
  have "x * 32768 - f < 1 + x" using b(2) by linarith
  then show "x - quantized x < (1 + x) / 32768" unfolding e by (simp add: divide_strict_right_mono)
qed

lemma quantized_error:
  assumes "- 1 \<le> x" "x \<le> 1"
  shows "\<bar>quantized x - x\<bar> < 2 / 32768" and "x \<le> 0 \<Longrightarrow> \<bar>quantized x - x\<bar> < 1 / 32768"
proof -
  show "\<bar>quantized x - x\<bar> < 2 / 32768"
  proof (cases "x < 0")
    case True
    show ?thesis using quantized_negative[OF assms(1) True] by linarith
  next
    case False
    then have x0: "0 \<le> x" by simp
    have "(1 + x) / 32768 \<le> 2 / 32768" using assms(2) by simp
    then show ?thesis using quantized_nonnegative[OF x0 assms(2)] by linarith
  qed
  show "\<bar>quantized x - x\<bar> < 1 / 32768" if "x \<le> 0"
  proof (cases "x < 0")
    case True
    show ?thesis using quantized_negative[OF assms(1) True] by linarith
  next
    case False
    then have "x = 0" using that by simp
    then show ?thesis by (simp add: quantized_def scaled_def jsTrunc_def)
  qed
qed


lemma roundtrip_quantized:
  "floatTo16BitPCM xs = Inr (concat (map sampleBytes xs))"
  "pcm16ToFloat (concat (map sampleBytes xs)) = Inr (map quantized xs)"
  using floatTo16BitPCM_eq[of xs] pcm16ToFloat_eq[of xs]
  by (simp_all add: decodedSample_quantized)

text \<open>
  C5. For samples in \<open>[-1, 1]\<close>, decoding the encoding gives back as many samples, each
  within two quantization steps of the original (absolute error below \<open>2 / 32768\<close>), and
  within one step (below \<open>1 / 32768\<close>) for samples that are not positive. The bound of one
  step claimed for every sample fails: a positive sample is scaled by 32767 and truncated,
  then divided by 32768, and \<open>65535 / 65536\<close> comes back as \<open>32766 / 32768\<close>, which is
  \<open>3 / 65536\<close> away.
\<close>

theorem pcm_roundtrip_error:
  assumes "\<forall>x \<in> set xs. - 1 \<le> x \<and> x \<le> 1"
  shows "\<exists>encoded ys.
           floatTo16BitPCM xs = Inr encoded \<and> pcm16ToFloat encoded = Inr ys
         \<and> length ys = length xs
         \<and> (\<forall>i < length xs.
               \<bar>ys ! i - xs ! i\<bar> < 2 / 32768
             \<and> (xs ! i \<le> 0 \<longrightarrow> \<bar>ys ! i - xs ! i\<bar> < 1 / 32768))"
proof (intro exI conjI allI impI)
  show "floatTo16BitPCM xs = Inr (concat (map sampleBytes xs))" by (rule roundtrip_quantized)
  show "pcm16ToFloat (concat (map sampleBytes xs)) = Inr (map quantized xs)"
    by (rule roundtrip_quantized)
  show "length (map quantized xs) = length xs" by simp
next
  fix i assume i: "i < length xs"
  then have r: "- 1 \<le> xs ! i" "xs ! i \<le> 1" using assms by simp_all
  show "\<bar>map quantized xs ! i - xs ! i\<bar> < 2 / 32768"
    using quantized_error(1)[OF r] i by simp
  show "\<bar>map quantized xs ! i - xs ! i\<bar> < 1 / 32768" if "xs ! i \<le> 0"
    using quantized_error(2)[OF r that] i by simp
qed

theorem pcm_roundtrip_error_witness:
  "\<exists>encoded ys.
     floatTo16BitPCM [1, - 1, 1 / 2, 65535 / 65536] = Inr encoded \<and> pcm16ToFloat encoded = Inr ys
   \<and> length ys = length [1 :: rat, - 1, 1 / 2, 65535 / 65536]
   \<and> (\<forall>i < length [1 :: rat, - 1, 1 / 2, 65535 / 65536].
         \<bar>ys ! i - [1, - 1, 1 / 2, 65535 / 65536] ! i\<bar> < 2 / 32768
       \<and> ([1 :: rat, - 1, 1 / 2, 65535 / 65536] ! i \<le> 0 \<longrightarrow>
            \<bar>ys ! i - [1, - 1, 1 / 2, 65535 / 65536] ! i\<bar> < 1 / 32768))"
proof -
  have h: "\<forall>x \<in> set [1 :: rat, - 1, 1 / 2, 65535 / 65536]. - 1 \<le> x \<and> x \<le> 1" by simp
  show ?thesis by (rule pcm_roundtrip_error[OF h])
qed

theorem pcm_roundtrip_counterexample:
  "\<not> (\<forall>xs. (\<forall>x \<in> set xs. - 1 \<le> x \<and> x \<le> 1) \<longrightarrow>
          (\<exists>encoded ys.
             floatTo16BitPCM xs = Inr encoded \<and> pcm16ToFloat encoded = Inr ys
           \<and> (\<forall>i < length xs. \<bar>ys ! i - xs ! i\<bar> \<le> 1 / 32768)))"
proof
  assume c: "\<forall>xs. (\<forall>x \<in> set xs. - 1 \<le> x \<and> x \<le> 1) \<longrightarrow>
          (\<exists>encoded ys.
             floatTo16BitPCM xs = Inr encoded \<and> pcm16ToFloat encoded = Inr ys
           \<and> (\<forall>i < length xs. \<bar>ys ! i - xs ! i\<bar> \<le> 1 / 32768))"
  have e: "floatTo16BitPCM [65535 / 65536] = Inr [254, 127]" by code_simp
  have d: "pcm16ToFloat [254, 127] = Inr [32766 / 32768]" by code_simp
  have "\<forall>x \<in> set [65535 / 65536 :: rat]. - 1 \<le> x \<and> x \<le> 1" by simp
  with c obtain encoded ys where r:
    "floatTo16BitPCM [65535 / 65536] = Inr encoded" "pcm16ToFloat encoded = Inr ys"
    "\<forall>i < length [65535 / 65536 :: rat]. \<bar>ys ! i - [65535 / 65536] ! i\<bar> \<le> 1 / 32768"
    by blast
  have "encoded = [254, 127]" using r(1) e by simp
  then have ys: "ys = [32766 / 32768]" using r(2) d by simp
  have "\<bar>ys ! 0 - [65535 / 65536] ! 0\<bar> \<le> 1 / 32768" using r(3) by simp
  then have "\<bar>(32766 / 32768 :: rat) - 65535 / 65536\<bar> \<le> 1 / 32768" unfolding ys by simp
  then show False by simp
qed

section \<open>Playback scheduling\<close>

lemma pcmLoop_total:
  assumes "even (length chunk)" "length out = n"
  shows "\<exists>out'. pcmLoop chunk out i = Inr out' \<and> length out' = n"
  using assms
proof (induction chunk out i rule: pcmLoop.induct)
  case (1 chunk out i)
  show ?case
  proof (cases "2 * i < length chunk")
    case False
    then show ?thesis using "1.prems" by (subst pcmLoop.simps) simp
  next
    case True
    have "2 * i + 2 \<le> length chunk" using True "1.prems"(1) by presburger
    then obtain v where g: "getInt16 chunk (i * 2) = Inr v"
      by (simp add: getInt16_def mult.commute)
    have "\<exists>out'. pcmLoop chunk (out[i := of_int v / 32768]) (i + 1) = Inr out' \<and> length out' = n"
      using "1.IH"[OF True g] "1.prems" by simp
    then show ?thesis using True g by (subst pcmLoop.simps) simp
  qed
qed

lemma pcm16ToFloat_total:
  assumes "even (length chunk)"
  shows "\<exists>xs. pcm16ToFloat chunk = Inr xs \<and> length xs = length chunk div 2"
  unfolding pcm16ToFloat_def using pcmLoop_total[OF assms, of _ "length chunk div 2" 0] by simp

lemma addPCM16_playing:
  assumes "isPlaying st" "pcm16ToFloat c = Inr xs"
  shows "addPCM16 c (pb, st) = (None, pb, st\<lparr>audioQueue := audioQueue st @ [xs]\<rparr>)"
  using assms by (simp add: addPCM16_def Let_def)

lemma addPCM16_idle:
  assumes "\<not> isPlaying st" "pcm16ToFloat c = Inr xs"
  shows "addPCM16 c (pb, st) =
           (None,
            pb\<lparr>timers := insertTimer (currentTime pb + of_nat (initialBufferTime st), ScheduleNextBuffer) (timers pb)\<rparr>,
            st\<lparr>audioQueue := audioQueue st @ [xs], isPlaying := True\<rparr>)"
  using assms by (simp add: addPCM16_def Let_def)

lemma addChunks_playing:
  assumes "isPlaying st" "list_all wholeSamples cs"
  shows "\<exists>q. addChunks cs (pb, st) = (None, pb, st\<lparr>audioQueue := audioQueue st @ q\<rparr>)
            \<and> map Inr q = map pcm16ToFloat cs \<and> list_all (\<lambda>b. b \<noteq> []) q"
  using assms
proof (induction cs arbitrary: st)
  case Nil
  then show ?case by simp
next
  case (Cons c cs)
  have wfc: "wholeSamples c" and rest: "list_all wholeSamples cs" using Cons.prems(2) by simp_all
  have wf: "even (length c)" "2 \<le> length c" using wfc by (simp_all add: wholeSamples_def)
  obtain xs where xs: "pcm16ToFloat c = Inr xs" "length xs = length c div 2"
    using pcm16ToFloat_total[OF wf(1)] by blast
  have ne: "xs \<noteq> []" using xs(2) wf(2) by auto
  let ?st1 = "st\<lparr>audioQueue := audioQueue st @ [xs]\<rparr>"
  have p: "isPlaying ?st1" using Cons.prems(1) by simp
  obtain q where q: "addChunks cs (pb, ?st1) = (None, pb, ?st1\<lparr>audioQueue := audioQueue ?st1 @ q\<rparr>)"
      "map Inr q = map pcm16ToFloat cs" "list_all (\<lambda>b. b \<noteq> []) q"
    using Cons.IH[OF p rest] by blast
  have "addChunks (c # cs) (pb, st) = (None, pb, st\<lparr>audioQueue := audioQueue st @ (xs # q)\<rparr>)"
    using addPCM16_playing[OF Cons.prems(1) xs(1), of pb] q(1) by simp
  moreover have "map Inr (xs # q) = map pcm16ToFloat (c # cs)" using xs(1) q(2) by simp
  moreover have "list_all (\<lambda>b. b \<noteq> []) (xs # q)" using ne q(3) by simp
  ultimately show ?case by blast
qed

lemma addChunks_fresh:
  assumes "list_all wholeSamples cs" "cs \<noteq> []"
  shows "\<exists>q. addChunks cs (freshPlayback t0, newAudioStreamer) =
             (None, (freshPlayback t0)\<lparr>timers := [(t0 + 100, ScheduleNextBuffer)]\<rparr>,
              newAudioStreamer\<lparr>audioQueue := q, isPlaying := True\<rparr>)
            \<and> map Inr q = map pcm16ToFloat cs \<and> list_all (\<lambda>b. b \<noteq> []) q"
proof -
  obtain c cs' where cs: "cs = c # cs'" using assms(2) by (cases cs) auto
  have wfc: "wholeSamples c" and rest: "list_all wholeSamples cs'" using assms(1) cs by simp_all
  have wf: "even (length c)" "2 \<le> length c" using wfc by (simp_all add: wholeSamples_def)
  obtain xs where xs: "pcm16ToFloat c = Inr xs" "length xs = length c div 2"
    using pcm16ToFloat_total[OF wf(1)] by blast
  have ne: "xs \<noteq> []" using xs(2) wf(2) by auto
  let ?pb1 = "(freshPlayback t0)\<lparr>timers := [(t0 + 100, ScheduleNextBuffer)]\<rparr>"
  let ?st1 = "newAudioStreamer\<lparr>audioQueue := [xs], isPlaying := True\<rparr>"
  have first: "addPCM16 c (freshPlayback t0, newAudioStreamer) = (None, ?pb1, ?st1)"
    using addPCM16_idle[of newAudioStreamer c xs "freshPlayback t0"] xs(1)
    by (simp add: newAudioStreamer_def freshPlayback_def)
  have p: "isPlaying ?st1" by simp
  obtain q where q: "addChunks cs' (?pb1, ?st1) = (None, ?pb1, ?st1\<lparr>audioQueue := audioQueue ?st1 @ q\<rparr>)"
      "map Inr q = map pcm16ToFloat cs'" "list_all (\<lambda>b. b \<noteq> []) q"
    using addChunks_playing[OF p rest] by blast
  have "addChunks cs (freshPlayback t0, newAudioStreamer) =
          (None, ?pb1, newAudioStreamer\<lparr>audioQueue := xs # q, isPlaying := True\<rparr>)"
    unfolding cs using first q(1) by simp
  moreover have "map Inr (xs # q) = map pcm16ToFloat cs" using xs(1) q(2) cs by simp
  moreover have "list_all (\<lambda>b. b \<noteq> []) (xs # q)" using ne q(3) by simp
  ultimately show ?thesis by blast
qed

lemma run_chain:
  assumes "timers pb = [(t, ScheduleNextBuffer)]" "audioQueue st = q" "list_all (\<lambda>b. b \<noteq> []) q"
  shows "started (fst (run (pb, st))) = started pb @ backToBack t (sampleRate st) q
       \<and> audioQueue (snd (run (pb, st))) = []
       \<and> timers (fst (run (pb, st))) = []
       \<and> uncaught (fst (run (pb, st))) = uncaught pb"
  using assms
proof (induction q arbitrary: pb st t)
  case Nil
  have f: "timers (fst (fire (pb, st))) = []" "started (fst (fire (pb, st))) = started pb"
     "audioQueue (snd (fire (pb, st))) = []" "uncaught (fst (fire (pb, st))) = uncaught pb"
    using Nil by (simp_all add: fire_def scheduleNextBuffer_def Let_def)
  have "run (pb, st) = fire (pb, st)"
    using Nil f(1) by (subst run.simps, simp, subst run.simps, simp)
  then show ?case using f by simp
next
  case (Cons b bs)
  let ?e = "t + of_nat (length b) * 1000 / of_nat (sampleRate st)"
  let ?pb' = "pb\<lparr>currentTime := t, timers := [(?e, ScheduleNextBuffer)],
                 started := started pb @ [\<lparr>startTime = t, endTime = ?e, samples = b\<rparr>]\<rparr>"
  let ?st' = "st\<lparr>audioQueue := bs\<rparr>"
  have ne: "b \<noteq> []" and rest: "list_all (\<lambda>b. b \<noteq> []) bs" using Cons.prems(3) by simp_all
  have f: "fire (pb, st) = (?pb', ?st')"
    using Cons.prems(1,2) ne by (simp add: fire_def scheduleNextBuffer_def Let_def)
  have r: "run (pb, st) = run (?pb', ?st')"
    using Cons.prems(1) f by (subst run.simps) simp
  have ih: "started (fst (run (?pb', ?st'))) = started ?pb' @ backToBack ?e (sampleRate ?st') bs
       \<and> audioQueue (snd (run (?pb', ?st'))) = []
       \<and> timers (fst (run (?pb', ?st'))) = []
       \<and> uncaught (fst (run (?pb', ?st'))) = uncaught ?pb'"
    by (rule Cons.IH) (simp_all add: rest)
  have sch: "backToBack t (sampleRate st) (b # bs)
               = \<lparr>startTime = t, endTime = ?e, samples = b\<rparr> # backToBack ?e (sampleRate st) bs"
    by simp
  have st': "started ?pb' = started pb @ [\<lparr>startTime = t, endTime = ?e, samples = b\<rparr>]"
    "uncaught ?pb' = uncaught pb" "sampleRate ?st' = sampleRate st" by simp_all
  show ?case unfolding r sch using ih unfolding st' by simp
qed

lemma gapless_backToBack: "gapless (backToBack t rate q)"
proof (induction q arbitrary: t)
  case Nil
  show ?case by simp
next
  case (Cons b bs)
  show ?case using Cons.IH[of "t + of_nat (length b) * 1000 / of_nat rate"]
    by (cases bs) simp_all
qed

lemma samples_backToBack: "map samples (backToBack t rate q) = q"
  by (induction q arbitrary: t) simp_all

lemma duration_backToBack:
  "list_all (\<lambda>s. endTime s = startTime s + of_nat (length (samples s)) * 1000 / of_nat rate)
     (backToBack t rate q)"
  by (induction q arbitrary: t) simp_all

lemma pcm16ToFloat_examples:
  "pcm16ToFloat [0, 0, 1, 0] = Inr [0, 1 / 32768]"
  "pcm16ToFloat [0, 0] = Inr [0]"
  "pcm16ToFloat [1, 1, 1, 1, 1, 1] = Inr [257 / 32768, 257 / 32768, 257 / 32768]"
  by (simp_all add: pcm16ToFloat_def pcmLoop.simps getInt16_def)

lemma gapless_snoc:
  "gapless (xs @ [x]) = (gapless xs \<and> (xs = [] \<or> startTime x = endTime (last xs)))"
  by (induction xs rule: gapless.induct) simp_all

lemma chainInv_fresh: "chainInv [] (freshPlayback t0, newAudioStreamer)"
  by (simp add: chainInv_def playedSoFar_def notStarted_def freshPlayback_def newAudioStreamer_def)

lemma chainInv_add_throws:
  assumes "chainInv A ps" "pcm16ToFloat c = Inl e"
  shows "chainInv A (snd (addPCM16 c ps))"
proof -
  have "addPCM16 c ps = (Some e, ps)" using assms(2) by (cases ps) (simp add: addPCM16_def)
  then show ?thesis using assms(1) by simp
qed

lemma take_append_short: "length xs \<le> length A \<Longrightarrow> take (length xs) (A @ B) = take (length xs) A"
  by simp

lemma playedSoFar_add:
  assumes "playedSoFar A pb st"
  shows "playedSoFar (A @ [xs]) pb (st\<lparr>audioQueue := q\<rparr>)"
    and "playedSoFar (A @ [xs]) (pb\<lparr>timers := ts\<rparr>) (st\<lparr>audioQueue := q, isPlaying := True\<rparr>)"
proof -
  have m: "map samples (started pb) = take (length (started pb)) A"
    using assms by (simp add: playedSoFar_def)
  have "length (map samples (started pb)) \<le> length A" by (subst m) simp
  then have len: "length (started pb) \<le> length A" by simp
  have tk: "take (length (started pb)) (A @ [xs]) = take (length (started pb)) A"
    using len by simp
  show "playedSoFar (A @ [xs]) pb (st\<lparr>audioQueue := q\<rparr>)"
    using assms tk by (simp add: playedSoFar_def)
  show "playedSoFar (A @ [xs]) (pb\<lparr>timers := ts\<rparr>) (st\<lparr>audioQueue := q, isPlaying := True\<rparr>)"
    using assms tk by (simp add: playedSoFar_def)
qed

lemma chainInv_add:
  assumes "chainInv A ps" "pcm16ToFloat c = Inr xs"
  shows "chainInv (A @ [xs]) (snd (addPCM16 c ps))"
proof -
  obtain pb st where ps: "ps = (pb, st)" by (cases ps)
  have common: "playedSoFar A pb st" using assms(1) by (simp add: chainInv_def ps)
  have phases: "notStarted A pb st \<or> stalled pb st \<or> (\<exists>t. chained A pb st t)"
    using assms(1) by (simp add: chainInv_def ps)
  show ?thesis
  proof (cases "isPlaying st")
    case False
    then have ns: "notStarted A pb st" using phases by (auto simp: stalled_def chained_def)
    have r: "snd (addPCM16 c ps) =
               (pb\<lparr>timers := [(currentTime pb + 100, ScheduleNextBuffer)]\<rparr>,
                st\<lparr>audioQueue := [xs], isPlaying := True\<rparr>)"
      using addPCM16_idle[OF False assms(2), of pb] ns common
      by (simp add: ps notStarted_def playedSoFar_def)
    have c: "chained (A @ [xs]) (pb\<lparr>timers := [(currentTime pb + 100, ScheduleNextBuffer)]\<rparr>)
               (st\<lparr>audioQueue := [xs], isPlaying := True\<rparr>) (currentTime pb + 100)"
      using ns by (simp add: chained_def notStarted_def)
    show ?thesis unfolding r chainInv_def fst_conv snd_conv
      using playedSoFar_add(2)[OF common] c by blast
  next
    case True
    have r: "snd (addPCM16 c ps) = (pb, st\<lparr>audioQueue := audioQueue st @ [xs]\<rparr>)"
      using addPCM16_playing[OF True assms(2), of pb] by (simp add: ps)
    have ph: "stalled pb (st\<lparr>audioQueue := audioQueue st @ [xs]\<rparr>)
            \<or> (\<exists>t. chained (A @ [xs]) pb (st\<lparr>audioQueue := audioQueue st @ [xs]\<rparr>) t)"
      using phases True by (auto simp: notStarted_def stalled_def chained_def)
    show ?thesis unfolding r chainInv_def fst_conv snd_conv
      using playedSoFar_add(1)[OF common] ph by blast
  qed
qed


lemma fire_no_timers: "timers pb = [] \<Longrightarrow> fire (pb, st) = (pb, st)"
  by (simp add: fire_def)

lemma fire_empty_queue:
  assumes "timers pb = [(t, ScheduleNextBuffer)]" "audioQueue st = []" "\<not> isStreamComplete st"
  shows "fire (pb, st) = (pb\<lparr>currentTime := t, timers := []\<rparr>, st)"
  using assms by (simp add: fire_def scheduleNextBuffer_def Let_def)

lemma fire_empty_buffer:
  assumes "timers pb = [(t, ScheduleNextBuffer)]" "audioQueue st = [] # bs"
  shows "fire (pb, st) =
           (pb\<lparr>currentTime := t, timers := [], uncaught := uncaught pb @ [NotSupportedError]\<rparr>,
            st\<lparr>audioQueue := bs\<rparr>)"
  using assms by (simp add: fire_def scheduleNextBuffer_def Let_def)

lemma fire_buffer:
  assumes "timers pb = [(t, ScheduleNextBuffer)]" "audioQueue st = b # bs" "b \<noteq> []"
  shows "fire (pb, st) =
           (pb\<lparr>currentTime := t,
               timers := [(t + of_nat (length b) * 1000 / of_nat (sampleRate st), ScheduleNextBuffer)],
               started := started pb
                  @ [\<lparr>startTime = t,
                      endTime = t + of_nat (length b) * 1000 / of_nat (sampleRate st),
                      samples = b\<rparr>]\<rparr>,
            st\<lparr>audioQueue := bs\<rparr>)"
  using assms by (simp add: fire_def scheduleNextBuffer_def Let_def)

lemma chainInv_fire:
  assumes "chainInv A ps"
  shows "chainInv A (fire ps)"
proof -
  obtain pb st where ps: "ps = (pb, st)" by (cases ps)
  have common: "playedSoFar A pb st" using assms(1) by (simp add: chainInv_def ps)
  have phases: "notStarted A pb st \<or> stalled pb st \<or> (\<exists>t. chained A pb st t)"
    using assms(1) by (simp add: chainInv_def ps)
  show ?thesis
  proof (cases "timers pb = []")
    case True
    show ?thesis using assms fire_no_timers[OF True, of st] by (simp add: ps)
  next
    case False
    then obtain t where ch: "chained A pb st t"
      using phases by (auto simp: notStarted_def stalled_def)
    have tm: "timers pb = [(t, ScheduleNextBuffer)]" and pl: "isPlaying st"
      and A: "map samples (started pb) @ audioQueue st = A"
      and lt: "started pb = [] \<or> t = endTime (last (started pb))"
      using ch by (simp_all add: chained_def)
    have nc: "\<not> isStreamComplete st" and sr: "sampleRate st = 24000"
      and g: "gapless (started pb)" and l: "list_all lasting (started pb)"
      and m: "map samples (started pb) = take (length (started pb)) A"
      and ib: "initialBufferTime st = 100"
      using common by (simp_all add: playedSoFar_def)
    show ?thesis
    proof (cases "audioQueue st")
      case Nil
      have f: "fire ps = (pb\<lparr>currentTime := t, timers := []\<rparr>, st)"
        using fire_empty_queue[OF tm Nil nc] by (simp add: ps)
      have "playedSoFar A (pb\<lparr>currentTime := t, timers := []\<rparr>) st"
        using common by (simp add: playedSoFar_def)
      moreover have "stalled (pb\<lparr>currentTime := t, timers := []\<rparr>) st"
        using pl by (simp add: stalled_def)
      ultimately show ?thesis unfolding f chainInv_def fst_conv snd_conv by blast
    next
      case (Cons b bs)
      show ?thesis
      proof (cases "b = []")
        case True
        have f: "fire ps =
                   (pb\<lparr>currentTime := t, timers := [], uncaught := uncaught pb @ [NotSupportedError]\<rparr>,
                    st\<lparr>audioQueue := bs\<rparr>)"
          using fire_empty_buffer[OF tm] Cons True by (simp add: ps)
        have "playedSoFar A (pb\<lparr>currentTime := t, timers := [],
                                  uncaught := uncaught pb @ [NotSupportedError]\<rparr>)
                (st\<lparr>audioQueue := bs\<rparr>)"
          using common by (simp add: playedSoFar_def)
        moreover have "stalled (pb\<lparr>currentTime := t, timers := [],
                                  uncaught := uncaught pb @ [NotSupportedError]\<rparr>)
                (st\<lparr>audioQueue := bs\<rparr>)"
          using pl by (simp add: stalled_def)
        ultimately show ?thesis unfolding f chainInv_def fst_conv snd_conv by blast
      next
        case False
        let ?e = "t + of_nat (length b) * 1000 / 24000"
        let ?src = "\<lparr>startTime = t, endTime = ?e, samples = b\<rparr>"
        let ?pb' = "pb\<lparr>currentTime := t, timers := [(?e, ScheduleNextBuffer)],
                       started := started pb @ [?src]\<rparr>"
        let ?st' = "st\<lparr>audioQueue := bs\<rparr>"
        have f: "fire ps = (?pb', ?st')"
          using fire_buffer[OF tm Cons False] sr by (simp add: ps)
        have g': "gapless (started pb @ [?src])"
          using g lt by (simp add: gapless_snoc)
        have l': "list_all lasting (started pb @ [?src])"
          using l False by (simp add: lasting_def)
        have A': "map samples (started pb @ [?src]) @ bs = A"
          using A Cons by simp
        have m': "map samples (started pb @ [?src]) = take (length (started pb @ [?src])) A"
          using A' by (metis append_eq_conv_conj length_map)
        have p: "playedSoFar A ?pb' ?st'"
          using nc sr ib g' l' m' by (simp add: playedSoFar_def)
        have c: "chained A ?pb' ?st' ?e"
          using pl A' by (simp add: chained_def)
        show ?thesis unfolding f chainInv_def fst_conv snd_conv using p c by blast
      qed
    qed
  qed
qed

lemma chainInv_exec:
  assumes "chainInv A ps" "Stop \<notin> set es"
  shows "chainInv (A @ addedChunks es) (exec es ps)"
  using assms
proof (induction es arbitrary: A ps)
  case Nil
  then show ?case by simp
next
  case (Cons e es)
  have rest: "Stop \<notin> set es" using Cons.prems(2) by simp
  show ?case
  proof (cases e)
    case Stop
    then show ?thesis using Cons.prems(2) by simp
  next
    case Tick
    show ?thesis using Cons.IH[OF chainInv_fire[OF Cons.prems(1)] rest] Tick by simp
  next
    case (AddChunk c)
    show ?thesis
    proof (cases "pcm16ToFloat c")
      case (Inl err)
      show ?thesis
        using Cons.IH[OF chainInv_add_throws[OF Cons.prems(1) Inl] rest] AddChunk Inl by simp
    next
      case (Inr xs)
      show ?thesis using Cons.IH[OF chainInv_add[OF Cons.prems(1) Inr] rest] AddChunk Inr by simp
    qed
  qed
qed

lemma started_back_to_back:
  assumes "Stop \<notin> set es"
  shows "gapless (started (fst (exec es (freshPlayback t0, newAudioStreamer))))
 \<and> list_all lasting (started (fst (exec es (freshPlayback t0, newAudioStreamer))))
 \<and> map samples (started (fst (exec es (freshPlayback t0, newAudioStreamer))))
     = take (length (started (fst (exec es (freshPlayback t0, newAudioStreamer))))) (addedChunks es)"
  using chainInv_exec[OF chainInv_fresh assms, of t0]
  by (simp add: chainInv_def playedSoFar_def)

lemma burst_played_in_full:
  assumes "list_all wholeSamples chunks"
  shows "fst (addChunks chunks (freshPlayback t0, newAudioStreamer)) = None
       \<and> map (\<lambda>s. Inr (samples s))
            (started (fst (run (snd (addChunks chunks (freshPlayback t0, newAudioStreamer))))))
          = map pcm16ToFloat chunks
       \<and> gapless (started (fst (run (snd (addChunks chunks (freshPlayback t0, newAudioStreamer))))))
       \<and> list_all (\<lambda>s. endTime s = startTime s + of_nat (length (samples s)) * 1000 / 24000)
            (started (fst (run (snd (addChunks chunks (freshPlayback t0, newAudioStreamer))))))
       \<and> map startTime
            (take 1 (started (fst (run (snd (addChunks chunks (freshPlayback t0, newAudioStreamer)))))))
          = map (\<lambda>c. t0 + 100) (take 1 chunks)"
proof (cases "chunks = []")
  case True
  have "run (freshPlayback t0, newAudioStreamer) = (freshPlayback t0, newAudioStreamer)"
    by (subst run.simps) (simp add: freshPlayback_def)
  then show ?thesis using True by (simp add: freshPlayback_def)
next
  case False
  let ?pb1 = "(freshPlayback t0)\<lparr>timers := [(t0 + 100, ScheduleNextBuffer)]\<rparr>"
  obtain q where q: "addChunks chunks (freshPlayback t0, newAudioStreamer) =
             (None, ?pb1, newAudioStreamer\<lparr>audioQueue := q, isPlaying := True\<rparr>)"
      "map Inr q = map pcm16ToFloat chunks" "list_all (\<lambda>b. b \<noteq> []) q"
    using addChunks_fresh[OF assms False] by blast
  let ?st1 = "newAudioStreamer\<lparr>audioQueue := q, isPlaying := True\<rparr>"
  have qne: "q \<noteq> []" using q(2) False by auto
  have st: "started (fst (run (?pb1, ?st1))) = backToBack (t0 + 100) 24000 q"
    using run_chain[of ?pb1 "t0 + 100" ?st1 q] q(3)
    by (simp add: freshPlayback_def newAudioStreamer_def)
  have m: "map (\<lambda>s. Inr (samples s)) (backToBack (t0 + 100) 24000 q) = map pcm16ToFloat chunks"
  proof -
    have "map (\<lambda>s. Inr (samples s)) (backToBack (t0 + 100) 24000 q)
            = map Inr (map samples (backToBack (t0 + 100) 24000 q))" by simp
    also have "\<dots> = map Inr q" by (simp only: samples_backToBack)
    also have "\<dots> = map pcm16ToFloat chunks" by (rule q(2))
    finally show ?thesis .
  qed
  have h: "map startTime (take 1 (backToBack (t0 + 100) 24000 q)) = map (\<lambda>c. t0 + 100) (take 1 chunks)"
    using qne False by (cases q; cases chunks) simp_all
  have a: "addChunks chunks (freshPlayback t0, newAudioStreamer) = (None, ?pb1, ?st1)"
    by (rule q(1))
  have d: "list_all (\<lambda>s. endTime s = startTime s + of_nat (length (samples s)) * 1000 / 24000)
             (backToBack (t0 + 100) 24000 q)"
    using duration_backToBack[of 24000 "t0 + 100" q] by (simp only: of_nat_numeral)
  show ?thesis
    unfolding a snd_conv fst_conv st
    using m h gapless_backToBack[of "t0 + 100" 24000 q] d
    by (intro conjI) (simp_all only: refl)
qed

text \<open>
  What holds on a new streamer as long as \<open>stop\<close> is not called, whatever chunks arrive and
  whenever the clock runs the pending callbacks: the sources started so far play the
  decoded chunks in arrival order (a prefix of them), each lasts its sample count at
  24 kHz, and each one after the first starts exactly when the one before it ends. When
  chunks of at least one whole sample each are handed over in one go and the clock then
  runs until no callback is pending, every chunk is played, the first one after the initial
  buffering delay of 100 ms.
\<close>

lemma unstopped_playback_back_to_back:
  assumes "Stop \<notin> set es"
  shows "gapless (started (fst (exec es (freshPlayback t0, newAudioStreamer))))
 \<and> list_all lasting (started (fst (exec es (freshPlayback t0, newAudioStreamer))))
 \<and> map samples (started (fst (exec es (freshPlayback t0, newAudioStreamer))))
     = take (length (started (fst (exec es (freshPlayback t0, newAudioStreamer))))) (addedChunks es)
 \<and> (list_all wholeSamples chunks \<longrightarrow>
        fst (addChunks chunks (freshPlayback t0, newAudioStreamer)) = None
      \<and> map (\<lambda>s. Inr (samples s))
           (started (fst (run (snd (addChunks chunks (freshPlayback t0, newAudioStreamer))))))
         = map pcm16ToFloat chunks
      \<and> gapless (started (fst (run (snd (addChunks chunks (freshPlayback t0, newAudioStreamer))))))
      \<and> list_all (\<lambda>s. endTime s = startTime s + of_nat (length (samples s)) * 1000 / 24000)
           (started (fst (run (snd (addChunks chunks (freshPlayback t0, newAudioStreamer))))))
      \<and> map startTime
           (take 1 (started (fst (run (snd (addChunks chunks (freshPlayback t0, newAudioStreamer)))))))
         = map (\<lambda>c. t0 + 100) (take 1 chunks))"
  using started_back_to_back[OF assms, of t0] burst_played_in_full[of chunks t0] by blast

lemma playback_examples:
  "map (\<lambda>s. (startTime s, endTime s))
      (started (fst (run (snd (addChunks [[0, 0, 1, 0], [0, 0], [1, 1, 1, 1, 1, 1]]
                                 (freshPlayback 0, newAudioStreamer))))))
    = [(100, 100 + 2 / 24), (100 + 2 / 24, 100 + 3 / 24), (100 + 3 / 24, 100 + 6 / 24)]"
  "map (\<lambda>s. (startTime s, endTime s))
      (started (fst (exec [AddChunk [0, 0, 1, 0], Tick, AddChunk [0, 0], Tick, Tick,
                           AddChunk [1, 1]]
                      (freshPlayback 0, newAudioStreamer))))
    = [(100, 100 + 2 / 24), (100 + 2 / 24, 100 + 3 / 24)]"
  by (simp_all add: pcm16ToFloat_examples addPCM16_def run.simps fire_def scheduleNextBuffer_def
                freshPlayback_def newAudioStreamer_def Let_def
                pcm16ToFloat_def pcmLoop.simps getInt16_def)

subsection \<open>Chunks that are never played, and sources that overlap\<close>

text \<open>
  Once the queue has run dry on a streamer that was not stopped, \<open>isPlaying\<close> is still true
  and no callback is pending. From then on, and until \<open>stop\<close> is called, no chunk that
  arrives is ever played.
\<close>

lemma stalled_never_resumes:
  assumes "stalled pb st" "Stop \<notin> set es"
  shows "started (fst (exec es (pb, st))) = started pb
       \<and> stalled (fst (exec es (pb, st))) (snd (exec es (pb, st)))"
  using assms
proof (induction es arbitrary: st)
  case Nil
  then show ?case by simp
next
  case (Cons e es)
  have rest: "Stop \<notin> set es" using Cons.prems(2) by simp
  show ?case
  proof (cases e)
    case Stop
    then show ?thesis using Cons.prems(2) by simp
  next
    case Tick
    have "fire (pb, st) = (pb, st)" using Cons.prems(1) by (simp add: fire_def stalled_def)
    then show ?thesis using Cons.IH[OF Cons.prems(1) rest] Tick by simp
  next
    case (AddChunk c)
    obtain st' where a: "snd (addPCM16 c (pb, st)) = (pb, st')" "stalled pb st'"
      using Cons.prems(1)
      by (cases "pcm16ToFloat c") (simp_all add: addPCM16_def stalled_def Let_def)
    show ?thesis using Cons.IH[OF a(2) rest] AddChunk a(1) by simp
  qed
qed

lemma pcm16ToFloat_silence: "pcm16ToFloat (replicate (2 * n) 0) = Inr (replicate n 0)"
proof -
  have sb: "sampleBytes 0 = [0, 0]"
    by (simp add: sampleBytes_def scaled_def toInt16_def jsTrunc_def)
  have ds: "decodedSample 0 = 0"
    using decodedSample_quantized[of 0] by (simp add: quantized_def scaled_def jsTrunc_def)
  have c: "concat (map sampleBytes (replicate n 0)) = replicate (2 * n) 0"
    by (induction n) (simp_all add: sb)
  show ?thesis using pcm16ToFloat_eq[of "replicate n 0"] unfolding c by (simp add: ds)
qed

lemma silence_chunks:
  "pcm16ToFloat (replicate 9600 0) = Inr (replicate 4800 0)"
  "pcm16ToFloat (replicate 96 0) = Inr (replicate 48 0)"
  using pcm16ToFloat_silence[of 4800] pcm16ToFloat_silence[of 48] by simp_all

text \<open>
  C7. The claim fails on the code in two ways.

  A chunk that arrives after the queue has run dry is never played. On a new streamer a
  chunk of two samples is added and played from 100 ms on; when it ends,
  \<open>scheduleNextBuffer\<close> finds the queue empty and returns with \<open>isPlaying\<close> still true. The
  next chunk is put into the queue, but \<open>addPCM16\<close> sets up no callback because \<open>isPlaying\<close>
  is true: the chunk stays in the queue, nothing is pending, and no source is started for
  it.

  After \<open>stop\<close> sources overlap. A chunk of 200 ms is playing from 100 ms on when \<open>stop\<close> is
  called; \<open>stop\<close> leaves the source playing and its \<open>onended\<close> callback in place. Two more
  chunks arrive, of 200 ms and of 2 ms. The new buffering delay ends at 200 ms and the
  first of them starts, on top of the source that plays until 300 ms; at 300 ms the
  \<open>onended\<close> callback of the old source starts the second, on top of the first, which plays
  until 400 ms.
\<close>

theorem playback_stalls_and_overlaps:
  "map samples (started (fst (exec [AddChunk [0, 0, 1, 0], Tick, Tick, AddChunk [2, 0], Tick]
                                (freshPlayback 0, newAudioStreamer))))
     = [[0, 1 / 32768]]
 \<and> audioQueue (snd (exec [AddChunk [0, 0, 1, 0], Tick, Tick, AddChunk [2, 0], Tick]
                       (freshPlayback 0, newAudioStreamer)))
     = [[2 / 32768]]
 \<and> timers (fst (exec [AddChunk [0, 0, 1, 0], Tick, Tick, AddChunk [2, 0], Tick]
                   (freshPlayback 0, newAudioStreamer)))
     = []
 \<and> map (\<lambda>s. (startTime s, endTime s))
      (started (fst (exec [AddChunk (replicate 9600 0), Tick, Stop,
                           AddChunk (replicate 9600 0), AddChunk (replicate 96 0), Tick, Tick]
                      (freshPlayback 0, newAudioStreamer))))
     = [(100, 300), (200, 400), (300, 302)]"
proof (intro conjI)
  show "map samples (started (fst (exec [AddChunk [0, 0, 1, 0], Tick, Tick, AddChunk [2, 0], Tick]
                                (freshPlayback 0, newAudioStreamer))))
     = [[0, 1 / 32768]]"
    by (simp add: addPCM16_def fire_def scheduleNextBuffer_def freshPlayback_def
                  newAudioStreamer_def Let_def pcm16ToFloat_def pcmLoop.simps getInt16_def)
  show "audioQueue (snd (exec [AddChunk [0, 0, 1, 0], Tick, Tick, AddChunk [2, 0], Tick]
                       (freshPlayback 0, newAudioStreamer)))
     = [[2 / 32768]]"
    by (simp add: addPCM16_def fire_def scheduleNextBuffer_def freshPlayback_def
                  newAudioStreamer_def Let_def pcm16ToFloat_def pcmLoop.simps getInt16_def)
  show "timers (fst (exec [AddChunk [0, 0, 1, 0], Tick, Tick, AddChunk [2, 0], Tick]
                   (freshPlayback 0, newAudioStreamer)))
     = []"
    by (simp add: addPCM16_def fire_def scheduleNextBuffer_def freshPlayback_def
                  newAudioStreamer_def Let_def pcm16ToFloat_def pcmLoop.simps getInt16_def)
  show "map (\<lambda>s. (startTime s, endTime s))
      (started (fst (exec [AddChunk (replicate 9600 0), Tick, Stop,
                           AddChunk (replicate 9600 0), AddChunk (replicate 96 0), Tick, Tick]
                      (freshPlayback 0, newAudioStreamer))))
     = [(100, 300), (200, 400), (300, 302)]"
    by (simp add: silence_chunks addPCM16_def fire_def scheduleNextBuffer_def
                  AudioStreamer_stop_def freshPlayback_def newAudioStreamer_def Let_def)
qed

section \<open>Grounding tools\<close>

lemma list_ex_isReady: "list_ex isReady ds = (\<exists>d \<in> set ds. docStatus d = Some ready)"
  by (simp add: list_ex_iff isReady_def)

lemma tools_request:
  "tools (buildContextualRequest input) =
     (if storeHasReadyDoc (ragStore input) (docsOf input)
      then [\<lparr>googleSearch = None,
             fileSearch = Some \<lparr>fileSearchStoreNames = [storeName (the (ragStore input))],
                                toolMetadataFilter = (if truthyStr (metadataFilter input)
                                                      then metadataFilter input else None)\<rparr>,
             codeExecution = None\<rparr>]
      else [\<lparr>googleSearch = Some (), fileSearch = None, codeExecution = None\<rparr>])"
  by (auto simp: buildContextualRequest_def Let_def storeHasReadyDoc_def docsOf_def
                 list_ex_isReady split: option.splits)

lemma tools_live:
  "liveTools (buildLiveConfig activeStore docs) =
     (if storeHasReadyDoc activeStore docs
      then [\<lparr>liveGoogleSearch = None, liveCodeExecution = None,
             liveFileSearch = Some [storeName (the activeStore)]\<rparr>]
      else [\<lparr>liveGoogleSearch = Some (), liveCodeExecution = None, liveFileSearch = None\<rparr>])"
  by (auto simp: buildLiveConfig_def Let_def storeHasReadyDoc_def list_ex_isReady split: option.splits)

text \<open>
  C3. Both builders produce a tool array of exactly one tool, and that tool is never both a
  file-search and a web-search entry: when a store exists and at least one document is
  ready, the array is the file-search tool alone (naming the store); otherwise it is the
  web-search tool alone. This holds for \<open>buildContextualRequest\<close> and for the configuration
  that \<open>LiveAPIProvider\<close> builds.
\<close>

theorem tools_mutually_exclusive:
  "length (tools (buildContextualRequest input)) = 1
 \<and> length (liveTools (buildLiveConfig activeStore docs)) = 1
 \<and> (\<forall>t \<in> set (tools (buildContextualRequest input)).
        (fileSearch t \<noteq> None) \<noteq> (googleSearch t \<noteq> None))
 \<and> (\<forall>t \<in> set (liveTools (buildLiveConfig activeStore docs)).
        (liveFileSearch t \<noteq> None) \<noteq> (liveGoogleSearch t \<noteq> None))
 \<and> (storeHasReadyDoc (ragStore input) (docsOf input) \<longrightarrow>
        tools (buildContextualRequest input)
          = [\<lparr>googleSearch = None,
              fileSearch = Some \<lparr>fileSearchStoreNames = [storeName (the (ragStore input))],
                                 toolMetadataFilter = (if truthyStr (metadataFilter input)
                                                       then metadataFilter input else None)\<rparr>,
              codeExecution = None\<rparr>])
 \<and> (\<not> storeHasReadyDoc (ragStore input) (docsOf input) \<longrightarrow>
        tools (buildContextualRequest input)
          = [\<lparr>googleSearch = Some (), fileSearch = None, codeExecution = None\<rparr>])
 \<and> (storeHasReadyDoc activeStore docs \<longrightarrow>
        liveTools (buildLiveConfig activeStore docs)
          = [\<lparr>liveGoogleSearch = None, liveCodeExecution = None,
              liveFileSearch = Some [storeName (the activeStore)]\<rparr>])
 \<and> (\<not> storeHasReadyDoc activeStore docs \<longrightarrow>
        liveTools (buildLiveConfig activeStore docs)
          = [\<lparr>liveGoogleSearch = Some (), liveCodeExecution = None, liveFileSearch = None\<rparr>])"
  by (simp add: tools_request tools_live)

theorem tools_mutually_exclusive_witness:
  "tools (buildContextualRequest
            (exampleInput (Some exampleStore) (Some [exampleDoc indexing, exampleDoc ready])))
     = [\<lparr>googleSearch = None,
         fileSearch = Some \<lparr>fileSearchStoreNames = [''fileSearchStores/123''],
                            toolMetadataFilter = None\<rparr>,
         codeExecution = None\<rparr>]
 \<and> tools (buildContextualRequest (exampleInput (Some exampleStore) (Some [exampleDoc indexing])))
     = [\<lparr>googleSearch = Some (), fileSearch = None, codeExecution = None\<rparr>]
 \<and> liveTools (buildLiveConfig (Some exampleStore) [exampleDoc indexing, exampleDoc ready])
     = [\<lparr>liveGoogleSearch = None, liveCodeExecution = None,
         liveFileSearch = Some [''fileSearchStores/123'']\<rparr>]
 \<and> liveTools (buildLiveConfig None [exampleDoc ready])
     = [\<lparr>liveGoogleSearch = Some (), liveCodeExecution = None, liveFileSearch = None\<rparr>]"
proof -
  have r: "storeHasReadyDoc (Some exampleStore) [exampleDoc indexing, exampleDoc ready]"
    and n: "\<not> storeHasReadyDoc (Some exampleStore) [exampleDoc indexing]"
    and m: "\<not> storeHasReadyDoc None [exampleDoc ready]"
    by (simp_all add: storeHasReadyDoc_def exampleDoc_def)
  have 1: "tools (buildContextualRequest
            (exampleInput (Some exampleStore) (Some [exampleDoc indexing, exampleDoc ready])))
     = [\<lparr>googleSearch = None,
         fileSearch = Some \<lparr>fileSearchStoreNames = [''fileSearchStores/123''],
                            toolMetadataFilter = None\<rparr>,
         codeExecution = None\<rparr>]"
    using tools_mutually_exclusive[of "exampleInput (Some exampleStore)
            (Some [exampleDoc indexing, exampleDoc ready])" None "[]"] r
    by (simp add: exampleInput_def docsOf_def truthyStr_def exampleStore_def)
  have 2: "tools (buildContextualRequest (exampleInput (Some exampleStore) (Some [exampleDoc indexing])))
     = [\<lparr>googleSearch = Some (), fileSearch = None, codeExecution = None\<rparr>]"
    using tools_mutually_exclusive[of "exampleInput (Some exampleStore)
            (Some [exampleDoc indexing])" None "[]"] n
    by (simp add: exampleInput_def docsOf_def)
  have 3: "liveTools (buildLiveConfig (Some exampleStore) [exampleDoc indexing, exampleDoc ready])
     = [\<lparr>liveGoogleSearch = None, liveCodeExecution = None,
         liveFileSearch = Some [''fileSearchStores/123'']\<rparr>]"
    using tools_mutually_exclusive[of "exampleInput None None" "Some exampleStore"
            "[exampleDoc indexing, exampleDoc ready]"] r
    by (simp add: exampleStore_def)
  have 4: "liveTools (buildLiveConfig None [exampleDoc ready])
     = [\<lparr>liveGoogleSearch = Some (), liveCodeExecution = None, liveFileSearch = None\<rparr>]"
    using tools_mutually_exclusive[of "exampleInput None None" None "[exampleDoc ready]"] m
    by simp
  show ?thesis using 1 2 3 4 by blast
qed

section \<open>Transcript accumulation\<close>

text \<open>
  C4. From an empty accumulator, the deltas \<open>A\<close> and \<open>B\<close> followed by a turn completion
  produce exactly one completed turn, with text \<open>AB\<close> and a freshly incremented id, and
  clear the accumulator; a further turn completion with no delta in between produces no
  completed turn, and leaves \<open>isStreaming\<close> false and the streaming text empty.
\<close>

theorem turn_lifecycle:
  assumes "streamingTextRef s = []"
  shows "completedTurns (onTurnComplete t1 (onTextDelta ''B'' (onTextDelta ''A'' s)))
           = completedTurns s @ [\<lparr>turnId = ''live-turn-'' @ showNat (turnIdRef s + 1),
                                  turnText = ''AB'', turnTimestamp = t1\<rparr>]
       \<and> lastCompletedTurn (onTurnComplete t1 (onTextDelta ''B'' (onTextDelta ''A'' s)))
           = Some \<lparr>turnId = ''live-turn-'' @ showNat (turnIdRef s + 1),
                   turnText = ''AB'', turnTimestamp = t1\<rparr>
       \<and> streamingTextRef (onTurnComplete t1 (onTextDelta ''B'' (onTextDelta ''A'' s))) = []
       \<and> streamingText (onTurnComplete t1 (onTextDelta ''B'' (onTextDelta ''A'' s))) = []
       \<and> isStreaming (onTurnComplete t1 (onTextDelta ''B'' (onTextDelta ''A'' s))) = False
       \<and> completedTurns (onTurnComplete t2 (onTurnComplete t1 (onTextDelta ''B'' (onTextDelta ''A'' s))))
           = completedTurns (onTurnComplete t1 (onTextDelta ''B'' (onTextDelta ''A'' s)))
       \<and> lastCompletedTurn (onTurnComplete t2 (onTurnComplete t1 (onTextDelta ''B'' (onTextDelta ''A'' s))))
           = lastCompletedTurn (onTurnComplete t1 (onTextDelta ''B'' (onTextDelta ''A'' s)))
       \<and> isStreaming (onTurnComplete t2 (onTurnComplete t1 (onTextDelta ''B'' (onTextDelta ''A'' s)))) = False
       \<and> streamingText (onTurnComplete t2 (onTurnComplete t1 (onTextDelta ''B'' (onTextDelta ''A'' s)))) = []
       \<and> streamingTextRef (onTurnComplete t2 (onTurnComplete t1 (onTextDelta ''B'' (onTextDelta ''A'' s)))) = []"
  using assms by (simp add: onTurnComplete_def onTextDelta_def Let_def)

theorem turn_lifecycle_witness:
  "completedTurns (onTurnComplete 1000 (onTextDelta ''B'' (onTextDelta ''A'' initialLiveAPI)))
     = [\<lparr>turnId = ''live-turn-1'', turnText = ''AB'', turnTimestamp = 1000\<rparr>]
 \<and> completedTurns (onTurnComplete 2000 (onTurnComplete 1000
                      (onTextDelta ''B'' (onTextDelta ''A'' initialLiveAPI))))
     = [\<lparr>turnId = ''live-turn-1'', turnText = ''AB'', turnTimestamp = 1000\<rparr>]
 \<and> isStreaming (onTurnComplete 2000 (onTurnComplete 1000
                   (onTextDelta ''B'' (onTextDelta ''A'' initialLiveAPI)))) = False
 \<and> isStreaming (onTextDelta ''B'' (onTextDelta ''A'' initialLiveAPI)) = True"
proof -
  have h: "streamingTextRef initialLiveAPI = []" by (simp add: initialLiveAPI_def)
  have i: "completedTurns initialLiveAPI = []" "turnIdRef initialLiveAPI = 0"
    by (simp_all add: initialLiveAPI_def)
  have n: "showNat (0 + 1) = ''1''" by (subst showNat.simps) simp
  have s: "isStreaming (onTextDelta ''B'' (onTextDelta ''A'' initialLiveAPI)) = True"
    by (simp add: onTextDelta_def Let_def)
  show ?thesis
    using turn_lifecycle[OF h, of 1000 2000] s unfolding i n by simp
qed

section \<open>Connecting without a credential\<close>




lemma connect_with_key:
  "status (snd (connect (Some ''k'') exampleTransport exampleProvider)) = connecting
 \<and> map fst (connectCalls (fst (connect (Some ''k'') exampleTransport exampleProvider))) = [''k'']"
  by (simp add: connect_def getApiKey_def trim_def isSpace_def exampleProvider_def initialLiveAPI_def
                GenAILiveClient_connect_def newGenAILiveClient_def exampleTransport_def Let_def)

section \<open>Starting the recorder twice\<close>

text \<open>
  C8. \<open>AudioRecorder.start\<close> has no check on the handles it holds. Called twice with no
  \<open>stop\<close> in between, it leaves two microphone streams running, two audio contexts open
  and two source and two processor nodes connected; the recorder keeps the second set
  only. \<open>startRecording\<close> guards the creation of the recorder object, not its start, and
  behaves the same.
\<close>

theorem start_twice_duplicates:
  "(case AudioRecorder_start micEnv newAudioRecorder of
      (e1, env1, r1) \<Rightarrow>
        (case AudioRecorder_start env1 r1 of
           (e2, env2, r2) \<Rightarrow>
             e1 = None \<and> e2 = None
           \<and> liveStreams env1 = [0] \<and> openContexts env1 = [1]
           \<and> connectedSources env1 = [2] \<and> connectedProcessors env1 = [3]
           \<and> liveStreams env2 = [0, 4] \<and> openContexts env2 = [1, 5]
           \<and> connectedSources env2 = [2, 6] \<and> connectedProcessors env2 = [3, 7]
           \<and> recStream r2 = Some 4 \<and> recAudioContext r2 = Some 5
           \<and> recSource r2 = Some 6 \<and> recProcessor r2 = Some 7))
 \<and> (case startRecording micEnv initialLiveAPI of
      (env1, s1) \<Rightarrow>
        (case startRecording env1 s1 of
           (env2, s2) \<Rightarrow>
             liveStreams env1 = [1] \<and> connectedProcessors env1 = [4]
           \<and> liveStreams env2 = [1, 5] \<and> openContexts env2 = [0, 2, 6]
           \<and> connectedSources env2 = [3, 7] \<and> connectedProcessors env2 = [4, 8]
           \<and> audioContextRef s2 = Some 0
           \<and> map_option recStream (audioRecorderRef s2) = Some (Some 5)))"
  by (simp add: AudioRecorder_start_def startRecording_def micEnv_def newAudioRecorder_def
                initialLiveAPI_def newAudioStreamer_def Let_def)

lemma start_stop_start_single:
  "(case AudioRecorder_start micEnv newAudioRecorder of
      (e1, env1, r1) \<Rightarrow>
        (case AudioRecorder_stop env1 r1 of
           (env2, r2) \<Rightarrow>
             (case AudioRecorder_start env2 r2 of
                (e3, env3, r3) \<Rightarrow>
                  liveStreams env3 = [4] \<and> openContexts env3 = [5]
                \<and> connectedSources env3 = [6] \<and> connectedProcessors env3 = [7])))"
  by (simp add: AudioRecorder_start_def AudioRecorder_stop_def micEnv_def newAudioRecorder_def Let_def)

end
